theory Spec2Isabelle
  imports Main "HOL-Library.Sublist"
begin

section \<open>Text\<close>

text \<open>
  A Python \<open>str\<close> is a sequence of Unicode code points. A character is modelled by its
  code point, a text by the list of its code points; \<open>py\<close> turns a literal into that list.
\<close>

type_synonym pystr = "nat list"

definition py :: "string \<Rightarrow> pystr" where
  "py s = map of_char s"

text \<open>
  The class \<open>\s\<close> of a \<open>str\<close> pattern: the code points for which \<open>str.isspace\<close> holds
  (tab to carriage return, the four separators 28 to 31, space, NEL, no-break space and the
  Unicode spaces).
\<close>

definition isspace :: "nat \<Rightarrow> bool" where
  "isspace c \<longleftrightarrow>
     (9 \<le> c \<and> c \<le> 13) \<or> (28 \<le> c \<and> c \<le> 32) \<or> c = 133 \<or> c = 160 \<or> c = 5760 \<or>
     (8192 \<le> c \<and> c \<le> 8202) \<or> c = 8232 \<or> c = 8233 \<or> c = 8239 \<or> c = 8287 \<or> c = 12288"

text \<open>Python's \<open>sub in s\<close> on strings: \<open>sub\<close> occurs as a contiguous piece of \<open>s\<close>.\<close>

fun contains :: "pystr \<Rightarrow> pystr \<Rightarrow> bool" where
  "contains sub [] = (sub = [])"
| "contains sub (c # cs) = (prefix sub (c # cs) \<or> contains sub cs)"

text \<open>\<open>s.split('\n')\<close>: the lines of a text. Code point 10 is the newline.\<close>

fun text_lines :: "pystr \<Rightarrow> pystr list" where
  "text_lines [] = [[]]"
| "text_lines (c # cs) =
     (if c = 10 then [] # text_lines cs
      else (case text_lines cs of l # ls \<Rightarrow> (c # l) # ls | [] \<Rightarrow> [[c]]))"


section \<open>The regular expressions of the two scripts\<close>

text \<open>
  Both scripts use three kinds of pattern item only: literal text, \<open>\s*\<close> (greedy) and the
  capturing group \<open>(.*?)\<close> (lazy; under \<open>re.DOTALL\<close> the dot matches every character, the
  newline included). A pattern is the list of its items.
\<close>

datatype atom = Lit pystr | Spaces | LazyGroup

text \<open>
  \<open>rmatch p s\<close> is \<open>re.match\<close> at the start of \<open>s\<close>, with the backtracking order of Python's
  engine: \<open>\s*\<close> takes as many characters as it can and gives them back one at a time,
  \<open>(.*?)\<close> takes none and then one more at a time. The result is the captured groups in
  order and the text after the match.
\<close>

fun push_group :: "nat \<Rightarrow> pystr list \<times> pystr \<Rightarrow> pystr list \<times> pystr" where
  "push_group c (g # gs, r) = ((c # g) # gs, r)"
| "push_group c ([], r) = ([], r)"

fun rmatch :: "atom list \<Rightarrow> pystr \<Rightarrow> (pystr list \<times> pystr) option" where
  "rmatch [] s = Some ([], s)"
| "rmatch (Lit l # p) s = (if prefix l s then rmatch p (drop (length l) s) else None)"
| "rmatch (Spaces # p) [] = rmatch p []"
| "rmatch (Spaces # p) (c # cs) =
     (if isspace c
      then (case rmatch (Spaces # p) cs of Some m \<Rightarrow> Some m | None \<Rightarrow> rmatch p (c # cs))
      else rmatch p (c # cs))"
| "rmatch (LazyGroup # p) s =
     (case rmatch p s of
        Some (gs, r) \<Rightarrow> Some ([] # gs, r)
      | None \<Rightarrow>
          (case s of
             [] \<Rightarrow> None
           | c # cs \<Rightarrow> map_option (push_group c) (rmatch (LazyGroup # p) cs)))"

text \<open>
  \<open>re.sub(pattern, repl, s)\<close>: scan from the left; where the pattern matches, emit the
  replacement and go on after the match; elsewhere copy one character. After an empty match
  the replacement is emitted and one character is copied.
\<close>

function re_sub :: "atom list \<Rightarrow> (pystr list \<Rightarrow> pystr) \<Rightarrow> pystr \<Rightarrow> pystr" where
  "re_sub p repl s =
     (case rmatch p s of
        Some (gs, r) \<Rightarrow>
          if length r < length s then repl gs @ re_sub p repl r
          else repl gs @ (case s of [] \<Rightarrow> [] | c # cs \<Rightarrow> c # re_sub p repl cs)
      | None \<Rightarrow> (case s of [] \<Rightarrow> [] | c # cs \<Rightarrow> c # re_sub p repl cs))"
  by pat_completeness auto
termination
  by (relation "measure (\<lambda>(p, repl, s). length s)") auto

declare re_sub.simps [simp del]

text \<open>\<open>m.group(n)\<close> for \<open>n \<ge> 1\<close>.\<close>

definition group :: "pystr list \<Rightarrow> nat \<Rightarrow> pystr" where
  "group gs n = (if 0 < n \<and> n \<le> length gs then gs ! (n - 1) else [])"

text \<open>\<^verbatim>\<open>r'<<<<<<< HEAD\n\s*const vi: typeof import\(\'vitest\'\)\.vi\n=======\n>>>>>>> test/test-failure-analysis'\<close>\<close>

definition vi_conflict_pattern :: "atom list" where
  "vi_conflict_pattern =
     [Lit (py ''<<<<<<< HEAD\<newline>''), Spaces,
      Lit (py ''const vi: typeof import('vitest').vi\<newline>=======\<newline>>>>>>>> test/test-failure-analysis'')]"

text \<open>\<^verbatim>\<open>r'<<<<<<< HEAD\n(.*?)\n=======\n(.*?)\n>>>>>>> test/test-failure-analysis'\<close> with \<open>re.DOTALL\<close>\<close>

definition general_conflict_pattern :: "atom list" where
  "general_conflict_pattern =
     [Lit (py ''<<<<<<< HEAD\<newline>''), LazyGroup, Lit (py ''\<newline>=======\<newline>''), LazyGroup,
      Lit (py ''\<newline>>>>>>>> test/test-failure-analysis'')]"

definition keep_theirs :: "pystr list \<Rightarrow> pystr" where
  "keep_theirs m = group m 2"

text \<open>
  The two substitutions of \<open>resolve_conflicts\<close>, under the names the specification gives them:
  \<open>resolveSpecialCase\<close> is \<open>re.sub(vi_conflict_pattern, '', content)\<close>, \<open>resolveGeneric\<close> is
  \<open>re.sub(general_conflict_pattern, keep_theirs, content, flags=re.DOTALL)\<close>, which is also the
  substitution of \<open>resolve_generic_conflicts\<close>. \<open>resolve_content\<close> is the first followed by
  the second.
\<close>

definition resolveSpecialCase :: "pystr \<Rightarrow> pystr" where
  "resolveSpecialCase content = re_sub vi_conflict_pattern (\<lambda>m. []) content"

definition resolveGeneric :: "pystr \<Rightarrow> pystr" where
  "resolveGeneric content = re_sub general_conflict_pattern keep_theirs content"

definition resolve_content :: "pystr \<Rightarrow> pystr" where
  "resolve_content content = resolveGeneric (resolveSpecialCase content)"

text \<open>The marker texts the patterns are made of.\<close>

definition start_text :: pystr where
  "start_text = py ''<<<<<<< HEAD\<newline>''"

definition sep_text :: pystr where
  "sep_text = py ''\<newline>=======\<newline>''"

definition end_text :: pystr where
  "end_text = py ''\<newline>>>>>>>> test/test-failure-analysis''"

definition vi_text :: pystr where
  "vi_text = py ''const vi: typeof import('vitest').vi\<newline>=======\<newline>>>>>>>> test/test-failure-analysis''"


section \<open>Files and the two scripts\<close>

type_synonym path = pystr

datatype io_error = FileNotFoundError path | PermissionError path

datatype pyfile = File (readable: bool) (writable: bool) (data: pystr)

text \<open>A printed line, by its kind; \<open>line\<close> is the text that \<open>print\<close> writes.\<close>

datatype FileOutcome = Resolved path | NoConflictFound path | Error path io_error

text \<open>
  \<open>str(e)\<close> of an \<open>OSError\<close> with a file name is \<open>[Errno n] message: \<close> followed by the \<open>repr\<close> of
  the name. \<open>repr\<close> of a \<open>str\<close> puts the text between apostrophes (code point 39), or between
  double quotes (34) when the text has an apostrophe and no double quote; it writes a
  backslash (92) before the quote character and before a backslash, writes tab, newline and
  carriage return as \<open>\t\<close>, \<open>\n\<close>, \<open>\r\<close>, and writes every other character that is not printable
  as \<open>\xhh\<close>, \<open>\uhhhh\<close> or \<open>\Uhhhhhhhh\<close>. Beyond ASCII a character is printable unless it lies
  in one of the ranges below (the categories Other and Separator of Unicode 14.0.0, the
  table of CPython 3.11).
\<close>

definition nonprintable_ranges :: "(nat \<times> nat) list" where
  "nonprintable_ranges =
     [(128, 160), (173, 173), (888, 889), (896, 899), (907, 907), (909, 909), (930, 930),
      (1328, 1328), (1367, 1368), (1419, 1420), (1424, 1424), (1480, 1487), (1515, 1518),
      (1525, 1541), (1564, 1564), (1757, 1757), (1806, 1807), (1867, 1868), (1970, 1983),
      (2043, 2044), (2094, 2095), (2111, 2111), (2140, 2141), (2143, 2143), (2155, 2159),
      (2191, 2199), (2274, 2274), (2436, 2436), (2445, 2446), (2449, 2450), (2473, 2473),
      (2481, 2481), (2483, 2485), (2490, 2491), (2501, 2502), (2505, 2506), (2511, 2518),
      (2520, 2523), (2526, 2526), (2532, 2533), (2559, 2560), (2564, 2564), (2571, 2574),
      (2577, 2578), (2601, 2601), (2609, 2609), (2612, 2612), (2615, 2615), (2618, 2619),
      (2621, 2621), (2627, 2630), (2633, 2634), (2638, 2640), (2642, 2648), (2653, 2653),
      (2655, 2661), (2679, 2688), (2692, 2692), (2702, 2702), (2706, 2706), (2729, 2729),
      (2737, 2737), (2740, 2740), (2746, 2747), (2758, 2758), (2762, 2762), (2766, 2767),
      (2769, 2783), (2788, 2789), (2802, 2808), (2816, 2816), (2820, 2820), (2829, 2830),
      (2833, 2834), (2857, 2857), (2865, 2865), (2868, 2868), (2874, 2875), (2885, 2886),
      (2889, 2890), (2894, 2900), (2904, 2907), (2910, 2910), (2916, 2917), (2936, 2945),
      (2948, 2948), (2955, 2957), (2961, 2961), (2966, 2968), (2971, 2971), (2973, 2973),
      (2976, 2978), (2981, 2983), (2987, 2989), (3002, 3005), (3011, 3013), (3017, 3017),
      (3022, 3023), (3025, 3030), (3032, 3045), (3067, 3071), (3085, 3085), (3089, 3089),
      (3113, 3113), (3130, 3131), (3141, 3141), (3145, 3145), (3150, 3156), (3159, 3159),
      (3163, 3164), (3166, 3167), (3172, 3173), (3184, 3190), (3213, 3213), (3217, 3217),
      (3241, 3241), (3252, 3252), (3258, 3259), (3269, 3269), (3273, 3273), (3278, 3284),
      (3287, 3292), (3295, 3295), (3300, 3301), (3312, 3312), (3315, 3327), (3341, 3341),
      (3345, 3345), (3397, 3397), (3401, 3401), (3408, 3411), (3428, 3429), (3456, 3456),
      (3460, 3460), (3479, 3481), (3506, 3506), (3516, 3516), (3518, 3519), (3527, 3529),
      (3531, 3534), (3541, 3541), (3543, 3543), (3552, 3557), (3568, 3569), (3573, 3584),
      (3643, 3646), (3676, 3712), (3715, 3715), (3717, 3717), (3723, 3723), (3748, 3748),
      (3750, 3750), (3774, 3775), (3781, 3781), (3783, 3783), (3790, 3791), (3802, 3803),
      (3808, 3839), (3912, 3912), (3949, 3952), (3992, 3992), (4029, 4029), (4045, 4045),
      (4059, 4095), (4294, 4294), (4296, 4300), (4302, 4303), (4681, 4681), (4686, 4687),
      (4695, 4695), (4697, 4697), (4702, 4703), (4745, 4745), (4750, 4751), (4785, 4785),
      (4790, 4791), (4799, 4799), (4801, 4801), (4806, 4807), (4823, 4823), (4881, 4881),
      (4886, 4887), (4955, 4956), (4989, 4991), (5018, 5023), (5110, 5111), (5118, 5119),
      (5760, 5760), (5789, 5791), (5881, 5887), (5910, 5918), (5943, 5951), (5972, 5983),
      (5997, 5997), (6001, 6001), (6004, 6015), (6110, 6111), (6122, 6127), (6138, 6143),
      (6158, 6158), (6170, 6175), (6265, 6271), (6315, 6319), (6390, 6399), (6431, 6431),
      (6444, 6447), (6460, 6463), (6465, 6467), (6510, 6511), (6517, 6527), (6572, 6575),
      (6602, 6607), (6619, 6621), (6684, 6685), (6751, 6751), (6781, 6782), (6794, 6799),
      (6810, 6815), (6830, 6831), (6863, 6911), (6989, 6991), (7039, 7039), (7156, 7163),
      (7224, 7226), (7242, 7244), (7305, 7311), (7355, 7356), (7368, 7375), (7419, 7423),
      (7958, 7959), (7966, 7967), (8006, 8007), (8014, 8015), (8024, 8024), (8026, 8026),
      (8028, 8028), (8030, 8030), (8062, 8063), (8117, 8117), (8133, 8133), (8148, 8149),
      (8156, 8156), (8176, 8177), (8181, 8181), (8191, 8207), (8232, 8239), (8287, 8303),
      (8306, 8307), (8335, 8335), (8349, 8351), (8385, 8399), (8433, 8447), (8588, 8591),
      (9255, 9279), (9291, 9311), (11124, 11125), (11158, 11158), (11508, 11512), (11558, 11558),
      (11560, 11564), (11566, 11567), (11624, 11630), (11633, 11646), (11671, 11679),
      (11687, 11687), (11695, 11695), (11703, 11703), (11711, 11711), (11719, 11719),
      (11727, 11727), (11735, 11735), (11743, 11743), (11870, 11903), (11930, 11930),
      (12020, 12031), (12246, 12271), (12284, 12288), (12352, 12352), (12439, 12440),
      (12544, 12548), (12592, 12592), (12687, 12687), (12772, 12783), (12831, 12831),
      (42125, 42127), (42183, 42191), (42540, 42559), (42744, 42751), (42955, 42959),
      (42962, 42962), (42964, 42964), (42970, 42993), (43053, 43055), (43066, 43071),
      (43128, 43135), (43206, 43213), (43226, 43231), (43348, 43358), (43389, 43391),
      (43470, 43470), (43482, 43485), (43519, 43519), (43575, 43583), (43598, 43599),
      (43610, 43611), (43715, 43738), (43767, 43776), (43783, 43784), (43791, 43792),
      (43799, 43807), (43815, 43815), (43823, 43823), (43884, 43887), (44014, 44015),
      (44026, 44031), (55204, 55215), (55239, 55242), (55292, 63743), (64110, 64111),
      (64218, 64255), (64263, 64274), (64280, 64284), (64311, 64311), (64317, 64317),
      (64319, 64319), (64322, 64322), (64325, 64325), (64451, 64466), (64912, 64913),
      (64968, 64974), (64976, 65007), (65050, 65055), (65107, 65107), (65127, 65127),
      (65132, 65135), (65141, 65141), (65277, 65280), (65471, 65473), (65480, 65481),
      (65488, 65489), (65496, 65497), (65501, 65503), (65511, 65511), (65519, 65531),
      (65534, 65535), (65548, 65548), (65575, 65575), (65595, 65595), (65598, 65598),
      (65614, 65615), (65630, 65663), (65787, 65791), (65795, 65798), (65844, 65846),
      (65935, 65935), (65949, 65951), (65953, 65999), (66046, 66175), (66205, 66207),
      (66257, 66271), (66300, 66303), (66340, 66348), (66379, 66383), (66427, 66431),
      (66462, 66462), (66500, 66503), (66518, 66559), (66718, 66719), (66730, 66735),
      (66772, 66775), (66812, 66815), (66856, 66863), (66916, 66926), (66939, 66939),
      (66955, 66955), (66963, 66963), (66966, 66966), (66978, 66978), (66994, 66994),
      (67002, 67002), (67005, 67071), (67383, 67391), (67414, 67423), (67432, 67455),
      (67462, 67462), (67505, 67505), (67515, 67583), (67590, 67591), (67593, 67593),
      (67638, 67638), (67641, 67643), (67645, 67646), (67670, 67670), (67743, 67750),
      (67760, 67807), (67827, 67827), (67830, 67834), (67868, 67870), (67898, 67902),
      (67904, 67967), (68024, 68027), (68048, 68049), (68100, 68100), (68103, 68107),
      (68116, 68116), (68120, 68120), (68150, 68151), (68155, 68158), (68169, 68175),
      (68185, 68191), (68256, 68287), (68327, 68330), (68343, 68351), (68406, 68408),
      (68438, 68439), (68467, 68471), (68498, 68504), (68509, 68520), (68528, 68607),
      (68681, 68735), (68787, 68799), (68851, 68857), (68904, 68911), (68922, 69215),
      (69247, 69247), (69290, 69290), (69294, 69295), (69298, 69375), (69416, 69423),
      (69466, 69487), (69514, 69551), (69580, 69599), (69623, 69631), (69710, 69713),
      (69750, 69758), (69821, 69821), (69827, 69839), (69865, 69871), (69882, 69887),
      (69941, 69941), (69960, 69967), (70007, 70015), (70112, 70112), (70133, 70143),
      (70162, 70162), (70207, 70271), (70279, 70279), (70281, 70281), (70286, 70286),
      (70302, 70302), (70314, 70319), (70379, 70383), (70394, 70399), (70404, 70404),
      (70413, 70414), (70417, 70418), (70441, 70441), (70449, 70449), (70452, 70452),
      (70458, 70458), (70469, 70470), (70473, 70474), (70478, 70479), (70481, 70486),
      (70488, 70492), (70500, 70501), (70509, 70511), (70517, 70655), (70748, 70748),
      (70754, 70783), (70856, 70863), (70874, 71039), (71094, 71095), (71134, 71167),
      (71237, 71247), (71258, 71263), (71277, 71295), (71354, 71359), (71370, 71423),
      (71451, 71452), (71468, 71471), (71495, 71679), (71740, 71839), (71923, 71934),
      (71943, 71944), (71946, 71947), (71956, 71956), (71959, 71959), (71990, 71990),
      (71993, 71994), (72007, 72015), (72026, 72095), (72104, 72105), (72152, 72153),
      (72165, 72191), (72264, 72271), (72355, 72367), (72441, 72703), (72713, 72713),
      (72759, 72759), (72774, 72783), (72813, 72815), (72848, 72849), (72872, 72872),
      (72887, 72959), (72967, 72967), (72970, 72970), (73015, 73017), (73019, 73019),
      (73022, 73022), (73032, 73039), (73050, 73055), (73062, 73062), (73065, 73065),
      (73103, 73103), (73106, 73106), (73113, 73119), (73130, 73439), (73465, 73647),
      (73649, 73663), (73714, 73726), (74650, 74751), (74863, 74863), (74869, 74879),
      (75076, 77711), (77811, 77823), (78895, 82943), (83527, 92159), (92729, 92735),
      (92767, 92767), (92778, 92781), (92863, 92863), (92874, 92879), (92910, 92911),
      (92918, 92927), (92998, 93007), (93018, 93018), (93026, 93026), (93048, 93052),
      (93072, 93759), (93851, 93951), (94027, 94030), (94088, 94094), (94112, 94175),
      (94181, 94191), (94194, 94207), (100344, 100351), (101590, 101631), (101641, 110575),
      (110580, 110580), (110588, 110588), (110591, 110591), (110883, 110927), (110931, 110947),
      (110952, 110959), (111356, 113663), (113771, 113775), (113789, 113791), (113801, 113807),
      (113818, 113819), (113824, 118527), (118574, 118575), (118599, 118607), (118724, 118783),
      (119030, 119039), (119079, 119080), (119155, 119162), (119275, 119295), (119366, 119519),
      (119540, 119551), (119639, 119647), (119673, 119807), (119893, 119893), (119965, 119965),
      (119968, 119969), (119971, 119972), (119975, 119976), (119981, 119981), (119994, 119994),
      (119996, 119996), (120004, 120004), (120070, 120070), (120075, 120076), (120085, 120085),
      (120093, 120093), (120122, 120122), (120127, 120127), (120133, 120133), (120135, 120137),
      (120145, 120145), (120486, 120487), (120780, 120781), (121484, 121498), (121504, 121504),
      (121520, 122623), (122655, 122879), (122887, 122887), (122905, 122906), (122914, 122914),
      (122917, 122917), (122923, 123135), (123181, 123183), (123198, 123199), (123210, 123213),
      (123216, 123535), (123567, 123583), (123642, 123646), (123648, 124895), (124903, 124903),
      (124908, 124908), (124911, 124911), (124927, 124927), (125125, 125126), (125143, 125183),
      (125260, 125263), (125274, 125277), (125280, 126064), (126133, 126208), (126270, 126463),
      (126468, 126468), (126496, 126496), (126499, 126499), (126501, 126502), (126504, 126504),
      (126515, 126515), (126520, 126520), (126522, 126522), (126524, 126529), (126531, 126534),
      (126536, 126536), (126538, 126538), (126540, 126540), (126544, 126544), (126547, 126547),
      (126549, 126550), (126552, 126552), (126554, 126554), (126556, 126556), (126558, 126558),
      (126560, 126560), (126563, 126563), (126565, 126566), (126571, 126571), (126579, 126579),
      (126584, 126584), (126589, 126589), (126591, 126591), (126602, 126602), (126620, 126624),
      (126628, 126628), (126634, 126634), (126652, 126703), (126706, 126975), (127020, 127023),
      (127124, 127135), (127151, 127152), (127168, 127168), (127184, 127184), (127222, 127231),
      (127406, 127461), (127491, 127503), (127548, 127551), (127561, 127567), (127570, 127583),
      (127590, 127743), (128728, 128732), (128749, 128751), (128765, 128767), (128884, 128895),
      (128985, 128991), (129004, 129007), (129009, 129023), (129036, 129039), (129096, 129103),
      (129114, 129119), (129160, 129167), (129198, 129199), (129202, 129279), (129620, 129631),
      (129646, 129647), (129653, 129655), (129661, 129663), (129671, 129679), (129709, 129711),
      (129723, 129727), (129734, 129743), (129754, 129759), (129768, 129775), (129783, 129791),
      (129939, 129939), (129995, 130031), (130042, 131071), (173792, 173823), (177977, 177983),
      (178206, 178207), (183970, 183983), (191457, 194559), (195102, 196607), (201547, 917759),
      (918000, 1114111)]"

definition isprintable :: "nat \<Rightarrow> bool" where
  "isprintable c \<longleftrightarrow>
     (32 \<le> c \<and> c < 127) \<or>
     (127 < c \<and> list_all (\<lambda>(lo, hi). c < lo \<or> hi < c) nonprintable_ranges)"

definition hex_digit :: "nat \<Rightarrow> nat" where
  "hex_digit n = (if n < 10 then 48 + n else 87 + n)"

definition hex_digits :: "nat \<Rightarrow> nat \<Rightarrow> pystr" where
  "hex_digits w n = map (\<lambda>i. hex_digit ((n div 16 ^ i) mod 16)) (rev [0..<w])"

definition repr_char :: "nat \<Rightarrow> nat \<Rightarrow> pystr" where
  "repr_char quote c =
     (if c = quote \<or> c = 92 then [92, c]
      else if c = 9 then [92, 116]
      else if c = 10 then [92, 110]
      else if c = 13 then [92, 114]
      else if c < 32 \<or> c = 127 then [92, 120] @ hex_digits 2 c
      else if c < 127 then [c]
      else if isprintable c then [c]
      else if c < 256 then [92, 120] @ hex_digits 2 c
      else if c < 65536 then [92, 117] @ hex_digits 4 c
      else [92, 85] @ hex_digits 8 c)"

definition py_repr :: "pystr \<Rightarrow> pystr" where
  "py_repr s =
     (let quote = (if 39 \<in> set s \<and> 34 \<notin> set s then 34 else 39)
      in [quote] @ concat (map (repr_char quote) s) @ [quote])"

fun str_of_error :: "io_error \<Rightarrow> pystr" where
  "str_of_error (FileNotFoundError p) = py ''[Errno 2] No such file or directory: '' @ py_repr p"
| "str_of_error (PermissionError p) = py ''[Errno 13] Permission denied: '' @ py_repr p"

fun line :: "FileOutcome \<Rightarrow> pystr" where
  "line (Resolved p) = py ''Resolved conflicts in: '' @ p"
| "line (NoConflictFound p) = py ''No conflicts found in: '' @ p"
| "line (Error p e) = py ''Error processing '' @ p @ py '': '' @ str_of_error e"

fun outcome_path :: "FileOutcome \<Rightarrow> path" where
  "outcome_path (Resolved p) = p"
| "outcome_path (NoConflictFound p) = p"
| "outcome_path (Error p e) = p"

text \<open>
  What the scripts can see and change: the files by path, the lines printed so far (each
  \<open>print\<close> appends one), and a log of the paths written, one entry per file opened with
  \<open>'w'\<close> and written. The data of a file is its text as \<open>f.read()\<close> returns it; a file that
  cannot be opened for reading or for writing raises \<open>PermissionError\<close>.
\<close>

record world =
  files :: "path \<rightharpoonup> pyfile"
  writes :: "path list"
  stdout :: "FileOutcome list"

definition path_exists :: "world \<Rightarrow> path \<Rightarrow> bool" where
  "path_exists w p = (files w p \<noteq> None)"

definition print :: "FileOutcome \<Rightarrow> world \<Rightarrow> world" where
  "print out w = w\<lparr>stdout := stdout w @ [out]\<rparr>"

text \<open>\<open>open(p, 'r')\<close> and \<open>f.read()\<close>: the content, or the exception raised.\<close>

definition read_file :: "path \<Rightarrow> world \<Rightarrow> io_error + pystr" where
  "read_file p w =
     (case files w p of
        None \<Rightarrow> Inl (FileNotFoundError p)
      | Some f \<Rightarrow> if readable f then Inr (data f) else Inl (PermissionError p))"

text \<open>
  \<open>open(p, 'w')\<close> and \<open>f.write(content)\<close>: the file is replaced by the content (and created
  when it did not exist), or the exception is raised and nothing changes.
\<close>

definition write_file :: "path \<Rightarrow> pystr \<Rightarrow> world \<Rightarrow> io_error + world" where
  "write_file p content w =
     (case files w p of
        None \<Rightarrow> Inr (w\<lparr>files := (files w)(p \<mapsto> File True True content), writes := writes w @ [p]\<rparr>)
      | Some f \<Rightarrow>
          if writable f
          then Inr (w\<lparr>files := (files w)(p \<mapsto> File (readable f) True content),
                      writes := writes w @ [p]\<rparr>)
          else Inl (PermissionError p))"

subsection \<open>resolve_conflicts.py\<close>

text \<open>\<open>resolve_conflicts(file_path)\<close>: an exception leaves the function, as in the source.\<close>

definition resolve_conflicts :: "path \<Rightarrow> world \<Rightarrow> io_error + world" where
  "resolve_conflicts file_path w =
     (case read_file file_path w of
        Inl e \<Rightarrow> Inl e
      | Inr content \<Rightarrow>
          (case write_file file_path (resolveGeneric (resolveSpecialCase content)) w of
             Inl e \<Rightarrow> Inl e
           | Inr w' \<Rightarrow> Inr (print (Resolved file_path) w')))"

definition conflict_files :: "path list" where
  "conflict_files =
     [py ''src/main/__tests__/auto-updater-differential.test.ts'',
      py ''src/main/__tests__/auto-updater-integration.test.ts'',
      py ''src/main/__tests__/auto-updater-security.test.ts'',
      py ''src/main/__tests__/auto-updater.test.ts'',
      py ''src/main/__tests__/baseline.test.ts'',
      py ''src/main/__tests__/cross-process-communication.test.ts'',
      py ''src/main/__tests__/ipc-security.test.ts'',
      py ''src/main/__tests__/lifecycle.test.ts'',
      py ''src/main/__tests__/memory-leak-detection.test.ts'',
      py ''src/main/__tests__/memory-leaks.test.ts'',
      py ''src/main/__tests__/mocked-apis.test.ts'',
      py ''src/main/__tests__/mocked-electron-apis.test.ts'',
      py ''src/preload/__tests__/preload-security.test.ts'',
      py ''src/renderer/src/components/error/__tests__/ErrorBoundary.test.tsx'',
      py ''src/renderer/src/components/task/__tests__/TaskCard.test.tsx'']"

text \<open>
  The loop \<open>for file_path in conflict_files\<close>: a path that does not exist is passed over;
  an exception of \<open>resolve_conflicts\<close> is caught and printed. Nothing has been written or
  printed when the exception is raised, so the world is the one before the call.
\<close>

fun process_files :: "path list \<Rightarrow> world \<Rightarrow> world" where
  "process_files [] w = w"
| "process_files (file_path # rest) w =
     process_files rest
       (if path_exists w file_path
        then (case resolve_conflicts file_path w of
                Inr w' \<Rightarrow> w'
              | Inl e \<Rightarrow> print (Error file_path e) w)
        else w)"

definition resolve_conflicts_main :: "world \<Rightarrow> world" where
  "resolve_conflicts_main w = process_files conflict_files w"

subsection \<open>resolve_remaining.py\<close>

text \<open>\<open>resolve_generic_conflicts(file_path, preference)\<close>: the exceptions are caught inside.\<close>

definition resolve_generic_conflicts :: "path \<Rightarrow> pystr \<Rightarrow> world \<Rightarrow> world" where
  "resolve_generic_conflicts file_path preference w =
     (case read_file file_path w of
        Inl e \<Rightarrow> print (Error file_path e) w
      | Inr content \<Rightarrow>
          if \<not> contains (py ''<<<<<<< HEAD'') content
          then print (NoConflictFound file_path) w
          else
            (case write_file file_path
                    (if preference = py ''test'' then resolveGeneric content else content) w of
               Inl e \<Rightarrow> print (Error file_path e) w
             | Inr w' \<Rightarrow> print (Resolved file_path) w'))"

definition additional_files :: "(path \<times> pystr) list" where
  "additional_files =
     [(py ''src/renderer/src/hooks/useErrorBoundary.ts'', py ''test''),
      (py ''src/renderer/src/store/__tests__/errorHandling.test.ts'', py ''test''),
      (py ''src/renderer/src/store/__tests__/useTaskStore.test.ts'', py ''test''),
      (py ''startup.sh'', py ''test''),
      (py ''test-results/results.json'', py ''test''),
      (py ''tests/setup/preload.setup.ts'', py ''test''),
      (py ''wt_tasks/progress.md'', py ''test'')]"

text \<open>The loop \<open>for file_path, preference in additional_files.items()\<close>.\<close>

fun process_items :: "(path \<times> pystr) list \<Rightarrow> world \<Rightarrow> world" where
  "process_items [] w = w"
| "process_items ((file_path, preference) # rest) w =
     process_items rest
       (if path_exists w file_path then resolve_generic_conflicts file_path preference w else w)"

definition resolve_remaining_main :: "world \<Rightarrow> world" where
  "resolve_remaining_main w = process_items additional_files w"


section \<open>What a substitution may touch\<close>

text \<open>
  \<open>rewrites_vi s t\<close>: \<open>t\<close> is \<open>s\<close> with spans cut out, each of them the start text, white space,
  and the declaration with the separator and the end text; a character is copied only where
  no such span begins. \<open>rewrites_general s t\<close>: \<open>t\<close> is \<open>s\<close> with spans replaced by their second
  segment, each of them the start text, a first segment in which no separator text begins,
  the separator text, a second segment in which no end text begins, and the end text; a
  character is copied only where no span of the start text, a segment, the separator text, a
  segment and the end text begins. Every other character is copied, in order.
\<close>

inductive rewrites_vi :: "pystr \<Rightarrow> pystr \<Rightarrow> bool" where
  rv_Nil: "rewrites_vi [] []"
| rv_keep: "(\<forall>ws r. list_all isspace ws \<longrightarrow> c # s \<noteq> start_text @ ws @ vi_text @ r) \<Longrightarrow>
     rewrites_vi s t \<Longrightarrow> rewrites_vi (c # s) (c # t)"
| rv_cut: "list_all isspace ws \<Longrightarrow> rewrites_vi s t \<Longrightarrow>
     rewrites_vi (start_text @ ws @ vi_text @ s) t"

inductive rewrites_general :: "pystr \<Rightarrow> pystr \<Rightarrow> bool" where
  rg_Nil: "rewrites_general [] []"
| rg_keep: "(\<forall>ours theirs r. c # s \<noteq> start_text @ ours @ sep_text @ theirs @ end_text @ r) \<Longrightarrow>
     rewrites_general s t \<Longrightarrow> rewrites_general (c # s) (c # t)"
| rg_theirs: "\<not> contains sep_text (ours @ butlast sep_text) \<Longrightarrow>
     \<not> contains end_text (theirs @ butlast end_text) \<Longrightarrow> rewrites_general s t \<Longrightarrow>
     rewrites_general (start_text @ ours @ sep_text @ theirs @ end_text @ s) (theirs @ t)"


section \<open>Contents made of plain text and regions\<close>

text \<open>
  The conflict regions of the specification, as data: a general region has the two segments
  \<open>ours\<close> and \<open>theirs\<close>; the special region has the white space before the declaration of
  \<open>vi\<close> (its first segment is that white space and the declaration, its second segment is
  empty). A content is plain text, or plain text, a region and a content. \<open>render\<close> is the
  text of a content, \<open>resolved\<close> the text with every general region replaced by its second
  segment and every special region removed, \<open>without_special\<close> the text with only the
  special regions removed.
\<close>

datatype region = Generic pystr pystr | Special pystr

datatype doc = Plain pystr | Region pystr region doc

fun region_text :: "region \<Rightarrow> pystr" where
  "region_text (Generic ours theirs) = start_text @ ours @ sep_text @ theirs @ end_text"
| "region_text (Special ws) = start_text @ ws @ vi_text"

fun region_resolved :: "region \<Rightarrow> pystr" where
  "region_resolved (Generic ours theirs) = theirs"
| "region_resolved (Special ws) = []"

fun render :: "doc \<Rightarrow> pystr" where
  "render (Plain p) = p"
| "render (Region p r d) = p @ region_text r @ render d"

fun resolved :: "doc \<Rightarrow> pystr" where
  "resolved (Plain p) = p"
| "resolved (Region p r d) = p @ region_resolved r @ resolved d"

fun without_special :: "doc \<Rightarrow> pystr" where
  "without_special (Plain p) = p"
| "without_special (Region p (Generic ours theirs) d) =
     p @ region_text (Generic ours theirs) @ without_special d"
| "without_special (Region p (Special ws) d) = p @ without_special d"

text \<open>
  The regions are not nested and the markers are whole lines: the plain text has no start
  text, the start marker of a region begins a line (\<open>ends_line\<close> of the text before it) and
  its end marker ends one (\<open>starts_line\<close> of the text after it); in the first segment of a
  general region no separator text begins; its second segment has no line that is the start
  marker and no occurrence of the expected end marker \<open>>>>>>>> test/test-failure-analysis\<close>
  (the end text without its newline).
\<close>

definition starts_line :: "pystr \<Rightarrow> bool" where
  "starts_line s = (case s of [] \<Rightarrow> True | c # cs \<Rightarrow> c = 10)"

definition ends_line :: "pystr \<Rightarrow> bool" where
  "ends_line s = starts_line (rev s)"

fun region_ok :: "region \<Rightarrow> bool" where
  "region_ok (Generic ours theirs) =
     (\<not> contains sep_text (ours @ butlast sep_text) \<and>
      \<not> contains start_text (theirs @ [10]) \<and>
      \<not> contains (tl end_text) theirs)"
| "region_ok (Special ws) = list_all isspace ws"

fun doc_ok :: "doc \<Rightarrow> bool" where
  "doc_ok (Plain p) = (\<not> contains start_text p)"
| "doc_ok (Region p r d) =
     (\<not> contains start_text p \<and> ends_line p \<and> region_ok r \<and> starts_line (render d) \<and> doc_ok d)"


section \<open>Lemmas on matching and substitution\<close>

lemma re_sub_None: "rmatch p (c # cs) = None \<Longrightarrow> re_sub p repl (c # cs) = c # re_sub p repl cs"
  by (simp add: re_sub.simps)

lemma re_sub_Nil: "rmatch p [] = None \<Longrightarrow> re_sub p repl [] = []"
  by (simp add: re_sub.simps)

lemma re_sub_Some:
  "rmatch p s = Some (gs, r) \<Longrightarrow> length r < length s \<Longrightarrow> re_sub p repl s = repl gs @ re_sub p repl r"
  by (simp add: re_sub.simps)

subsection \<open>contains\<close>

lemma contains_iff: "contains sub s \<longleftrightarrow> (\<exists>a b. s = a @ sub @ b)"
proof (induction s)
  case Nil
  show ?case by auto
next
  case (Cons c cs)
  show ?case
  proof
    assume "contains sub (c # cs)"
    then consider "prefix sub (c # cs)" | "contains sub cs" by auto
    then show "\<exists>a b. c # cs = a @ sub @ b"
    proof cases
      case 1
      then obtain b where "c # cs = sub @ b" by (auto simp: prefix_def)
      then have "c # cs = [] @ sub @ b" by simp
      then show ?thesis by blast
    next
      case 2
      with Cons obtain a b where "cs = a @ sub @ b" by blast
      then have "c # cs = (c # a) @ sub @ b" by simp
      then show ?thesis by blast
    qed
  next
    assume "\<exists>a b. c # cs = a @ sub @ b"
    then obtain a b where ab: "c # cs = a @ sub @ b" by blast
    show "contains sub (c # cs)"
    proof (cases a)
      case Nil
      with ab have "prefix sub (c # cs)" by (simp add: prefix_def)
      then show ?thesis by simp
    next
      case (Cons x a')
      with ab have "cs = a' @ sub @ b" by simp
      with Cons.IH have "contains sub cs" by blast
      then show ?thesis by simp
    qed
  qed
qed

lemma containsI: "s = a @ sub @ b \<Longrightarrow> contains sub s"
  by (auto simp: contains_iff)

lemma contains_suffix: "suffix t s \<Longrightarrow> contains sub t \<Longrightarrow> contains sub s"
  by (auto simp: contains_iff suffix_def) (metis append.assoc)

lemma contains_skip:
  "c \<notin> set x \<Longrightarrow> contains (c # q) (x @ y) \<Longrightarrow> contains (c # q) y"
  by (induction x) (auto simp: prefix_def Cons_eq_append_conv)

subsection \<open>rmatch\<close>

lemma rmatch_LitD:
  "rmatch (Lit l # p) s = Some m \<Longrightarrow> \<exists>s'. s = l @ s' \<and> rmatch p s' = Some m"
  by (auto simp: prefix_def split: if_splits)

lemma rmatch_LazyD:
  "rmatch (LazyGroup # p) s = Some (gs, r) \<Longrightarrow>
     \<exists>g gs' s'. gs = g # gs' \<and> s = g @ s' \<and> rmatch p s' = Some (gs', r)"
proof (induction s arbitrary: gs)
  case Nil
  then show ?case by (auto split: option.splits)
next
  case (Cons c cs)
  show ?case
  proof (cases "rmatch p (c # cs)")
    case (Some m)
    with Cons.prems show ?thesis by (cases m) auto
  next
    case None
    with Cons.prems obtain gs0 where
      m0: "rmatch (LazyGroup # p) cs = Some (gs0, r)" and gs: "push_group c (gs0, r) = (gs, r)"
      by (auto simp del: rmatch.simps(5) simp add: rmatch.simps(5)[of p "c # cs"] split: prod.splits)
        (metis push_group.elims snd_conv prod.inject)
    from Cons.IH[OF m0] obtain g gs' s' where
      "gs0 = g # gs'" "cs = g @ s'" "rmatch p s' = Some (gs', r)" by blast
    with gs have "gs = (c # g) # gs'" "c # cs = (c # g) @ s'" by auto
    with \<open>rmatch p s' = Some (gs', r)\<close> show ?thesis by blast
  qed
qed

lemma rmatch_SpacesD:
  "rmatch (Spaces # p) s = Some m \<Longrightarrow>
     \<exists>ws s'. s = ws @ s' \<and> list_all isspace ws \<and> rmatch p s' = Some m"
proof (induction s)
  case Nil
  then have "rmatch p [] = Some m" by simp
  then show ?case by force
next
  case (Cons c cs)
  show ?case
  proof (cases "isspace c \<and> rmatch (Spaces # p) cs \<noteq> None")
    case True
    with Cons.prems have "rmatch (Spaces # p) cs = Some m" by auto
    from Cons.IH[OF this] obtain ws s' where
      "cs = ws @ s'" "list_all isspace ws" "rmatch p s' = Some m" by blast
    with True have "c # cs = (c # ws) @ s'" "list_all isspace (c # ws)" by auto
    with \<open>rmatch p s' = Some m\<close> show ?thesis by blast
  next
    case False
    with Cons.prems have "rmatch p (c # cs) = Some m" by (auto split: if_splits option.splits)
    then have "c # cs = [] @ (c # cs) \<and> list_all isspace [] \<and> rmatch p (c # cs) = Some m" by simp
    then show ?thesis by blast
  qed
qed

lemma rmatch_LazyI:
  "rmatch p s' \<noteq> None \<Longrightarrow> rmatch (LazyGroup # p) (g @ s') \<noteq> None"
proof (induction g)
  case Nil
  then show ?case by (auto split: option.splits)
next
  case (Cons c g)
  then show ?case by (auto simp del: rmatch.simps(5) simp add: rmatch.simps(5)[of p "c # g @ s'"] split: option.splits)
qed

lemma rmatch_suffix: "rmatch p s = Some (gs, r) \<Longrightarrow> suffix r s"
proof (induction p arbitrary: s gs)
  case Nil
  then show ?case by simp
next
  case (Cons a p)
  show ?case
  proof (cases a)
    case (Lit l)
    with Cons.prems obtain s' where "s = l @ s'" "rmatch p s' = Some (gs, r)"
      using rmatch_LitD by blast
    with Cons.IH show ?thesis by (meson suffix_append)
  next
    case Spaces
    with Cons.prems obtain ws s' where "s = ws @ s'" "rmatch p s' = Some (gs, r)"
      using rmatch_SpacesD by blast
    with Cons.IH show ?thesis by (meson suffix_append)
  next
    case LazyGroup
    with Cons.prems obtain g gs' s' where "s = g @ s'" "rmatch p s' = Some (gs', r)"
      using rmatch_LazyD by blast
    with Cons.IH show ?thesis by (meson suffix_append)
  qed
qed


lemma rmatch_endsD:
  "rmatch (q @ [Lit e]) s = Some (gs, r) \<Longrightarrow> \<exists>u. s = u @ e @ r"
proof (induction q arbitrary: s gs)
  case Nil
  then have "rmatch (Lit e # []) s = Some (gs, r)" by simp
  from rmatch_LitD[OF this] obtain s' where "s = e @ s'" "rmatch [] s' = Some (gs, r)" by blast
  then have "s = [] @ e @ r" by simp
  then show ?case by blast
next
  case (Cons a q)
  have step: "\<exists>u. s = u @ e @ r" if "s = x @ s'" "rmatch (q @ [Lit e]) s' = Some (gs', r)"
    for x s' gs'
  proof -
    from Cons.IH[OF that(2)] obtain u where "s' = u @ e @ r" by blast
    with that(1) have "s = (x @ u) @ e @ r" by simp
    then show ?thesis by blast
  qed
  show ?case
  proof (cases a)
    case (Lit l)
    with Cons.prems have "rmatch (Lit l # (q @ [Lit e])) s = Some (gs, r)" by simp
    from rmatch_LitD[OF this] show ?thesis using step by blast
  next
    case Spaces
    with Cons.prems have "rmatch (Spaces # (q @ [Lit e])) s = Some (gs, r)" by simp
    from rmatch_SpacesD[OF this] show ?thesis using step by blast
  next
    case LazyGroup
    with Cons.prems have "rmatch (LazyGroup # (q @ [Lit e])) s = Some (gs, r)" by simp
    from rmatch_LazyD[OF this] show ?thesis using step by blast
  qed
qed

lemma general_conflict_pattern_eq:
  "general_conflict_pattern = [Lit start_text, LazyGroup, Lit sep_text, LazyGroup, Lit end_text]"
  by (simp add: general_conflict_pattern_def start_text_def sep_text_def end_text_def)

lemma vi_conflict_pattern_eq:
  "vi_conflict_pattern = [Lit start_text, Spaces, Lit vi_text]"
  by (simp add: vi_conflict_pattern_def start_text_def vi_text_def)

lemma general_matchD:
  assumes "rmatch general_conflict_pattern s = Some (gs, r)"
  shows "\<exists>ours theirs. gs = [ours, theirs] \<and> s = start_text @ ours @ sep_text @ theirs @ end_text @ r"
proof -
  from assms obtain s1 where s1: "s = start_text @ s1"
    and m1: "rmatch [LazyGroup, Lit sep_text, LazyGroup, Lit end_text] s1 = Some (gs, r)"
    unfolding general_conflict_pattern_eq using rmatch_LitD by blast
  from rmatch_LazyD[OF m1] obtain ours gs1 s2 where gs: "gs = ours # gs1" and s2: "s1 = ours @ s2"
    and m2: "rmatch [Lit sep_text, LazyGroup, Lit end_text] s2 = Some (gs1, r)" by blast
  from rmatch_LitD[OF m2] obtain s3 where s3: "s2 = sep_text @ s3"
    and m3: "rmatch [LazyGroup, Lit end_text] s3 = Some (gs1, r)" by blast
  from rmatch_LazyD[OF m3] obtain theirs gs2 s4 where gs1: "gs1 = theirs # gs2" and s4: "s3 = theirs @ s4"
    and m4: "rmatch [Lit end_text] s4 = Some (gs2, r)" by blast
  from rmatch_LitD[OF m4] obtain s5 where s5: "s4 = end_text @ s5" and m5: "rmatch [] s5 = Some (gs2, r)"
    by blast
  from m5 have "gs2 = []" "s5 = r" by auto
  with s1 s2 s3 s4 s5 gs gs1 show ?thesis by simp
qed

lemma vi_matchD:
  assumes "rmatch vi_conflict_pattern s = Some (gs, r)"
  shows "\<exists>ws. list_all isspace ws \<and> s = start_text @ ws @ vi_text @ r"
proof -
  from assms obtain s1 where s1: "s = start_text @ s1"
    and m1: "rmatch [Spaces, Lit vi_text] s1 = Some (gs, r)"
    unfolding vi_conflict_pattern_eq using rmatch_LitD by blast
  from rmatch_SpacesD[OF m1] obtain ws s2 where s2: "s1 = ws @ s2" and ws: "list_all isspace ws"
    and m2: "rmatch [Lit vi_text] s2 = Some (gs, r)" by blast
  from rmatch_LitD[OF m2] obtain s3 where s3: "s2 = vi_text @ s3" and m3: "rmatch [] s3 = Some (gs, r)"
    by blast
  from m3 have "s3 = r" by auto
  with s1 s2 s3 ws show ?thesis by auto
qed

lemma general_matchI:
  "rmatch general_conflict_pattern (start_text @ ours @ sep_text @ theirs @ end_text @ r) \<noteq> None"
proof -
  have "rmatch [Lit end_text] (end_text @ r) \<noteq> None" by simp
  then have "rmatch [LazyGroup, Lit end_text] (theirs @ end_text @ r) \<noteq> None"
    by (rule rmatch_LazyI)
  then have "rmatch [Lit sep_text, LazyGroup, Lit end_text] (sep_text @ theirs @ end_text @ r) \<noteq> None"
    by simp
  then have "rmatch [LazyGroup, Lit sep_text, LazyGroup, Lit end_text]
      (ours @ sep_text @ theirs @ end_text @ r) \<noteq> None"
    by (rule rmatch_LazyI)
  then show ?thesis unfolding general_conflict_pattern_eq by simp
qed

subsection \<open>re_sub\<close>

lemmas eval_simps =
  py_def resolve_content_def resolveGeneric_def resolveSpecialCase_def vi_conflict_pattern_def
  general_conflict_pattern_def keep_theirs_def group_def re_sub_None re_sub_Nil re_sub_Some isspace_def

lemma re_sub_id:
  "(\<And>t. suffix t s \<Longrightarrow> rmatch p t = None) \<Longrightarrow> re_sub p repl s = s"
proof (induction s)
  case Nil
  then show ?case by (simp add: re_sub_Nil)
next
  case (Cons c cs)
  have "rmatch p (c # cs) = None" using Cons.prems by simp
  moreover have "re_sub p repl cs = cs"
    using Cons.prems by (intro Cons.IH) (simp add: suffix_Cons)
  ultimately show ?case by (simp add: re_sub_None)
qed

lemma rmatch_last_endsD:
  assumes "p \<noteq> []" "last p = Lit e" "rmatch p s = Some (gs, r)"
  shows "\<exists>u. s = u @ e @ r"
proof -
  from assms(1,2) have "p = butlast p @ [Lit e]" by (metis append_butlast_last_id)
  with assms(3) rmatch_endsD[of "butlast p" e s gs r] show ?thesis by simp
qed

lemma rmatch_no_end:
  assumes "p \<noteq> []" "last p = Lit e" "\<And>u v. s = u @ e @ v \<Longrightarrow> False"
  shows "rmatch p s = None"
proof (cases "rmatch p s")
  case None
  then show ?thesis .
next
  case (Some m)
  then obtain gs r where "rmatch p s = Some (gs, r)" by (cases m) auto
  from rmatch_last_endsD[OF assms(1,2) this] assms(3) show ?thesis by blast
qed

lemma push_group_append:
  "(case push_group c m of (gs, r) \<Rightarrow> (gs, r @ t)) = push_group c (case m of (gs, r) \<Rightarrow> (gs, r @ t))"
proof (cases m)
  case (Pair gs r)
  then show ?thesis by (cases gs) auto
qed

lemma rmatch_append:
  assumes e: "e \<noteq> []"
  shows "p \<noteq> [] \<Longrightarrow> last p = Lit e \<Longrightarrow> (\<And>u v. x @ t = u @ e @ v \<Longrightarrow> length t \<le> length v) \<Longrightarrow>
     rmatch p (x @ t) = map_option (\<lambda>(gs, r). (gs, r @ t)) (rmatch p x)"
proof (induction p x rule: rmatch.induct)
  case (1 s)
  then show ?case by simp
next
  case (2 l p s)
  note H = "2.prems"(3)
  show ?case
  proof (cases "p = []")
    case True
    with "2.prems" have l: "l = e" by simp
    show ?thesis
    proof (cases "prefix e (s @ t)")
      case pre: True
      then obtain v where v: "s @ t = e @ v" by (auto simp: prefix_def)
      then have "s @ t = [] @ e @ v" by simp
      from H[OF this] have "length t \<le> length v" .
      moreover from v have "length s + length t = length e + length v"
        by (metis length_append)
      ultimately have len: "length e \<le> length s" by simp
      with pre have "prefix e s"
        by (metis prefix_length_prefix prefixI)
      with True l len pre show ?thesis by simp
    next
      case npre: False
      then have "\<not> prefix e s" using prefix_prefix by blast
      with True l npre show ?thesis by simp
    qed
  next
    case ne: False
    with "2.prems" have last: "last p = Lit e" by simp
    show ?thesis
    proof (cases "prefix l s")
      case True
      then obtain s' where s': "s = l @ s'" by (auto simp: prefix_def)
      have "rmatch p (drop (length l) s @ t) =
          map_option (\<lambda>(gs, r). (gs, r @ t)) (rmatch p (drop (length l) s))"
      proof (rule "2.IH"[OF True ne last])
        fix u v assume "drop (length l) s @ t = u @ e @ v"
        with s' have "s @ t = (l @ u) @ e @ v" by simp
        from H[OF this] show "length t \<le> length v" .
      qed
      with True s' show ?thesis by simp
    next
      case False
      have "rmatch (Lit l # p) (s @ t) = None"
      proof (cases "prefix l (s @ t)")
        case pre: True
        then obtain w where w: "s @ t = l @ w" by (auto simp: prefix_def)
        have "rmatch p w = None"
        proof (rule rmatch_no_end[OF ne last])
          fix u v assume "w = u @ e @ v"
          with w have eq: "s @ t = (l @ u) @ e @ v" by simp
          from H[OF this] have "length t \<le> length v" .
          moreover from eq have "length s + length t = length l + length u + length e + length v"
            by (metis length_append add.assoc)
          ultimately have "length l \<le> length s" by simp
          with pre have "prefix l s" by (metis prefix_length_prefix prefixI)
          with False show False by simp
        qed
        with w show ?thesis by simp
      next
        case False
        then show ?thesis by simp
      qed
      with False show ?thesis by simp
    qed
  qed
next
  case (3 p)
  have "\<And>u v. t = u @ e @ v \<Longrightarrow> False"
  proof -
    fix u v assume "t = u @ e @ v"
    then have "[] @ t = u @ e @ v" "length t = length u + length e + length v" by simp_all
    with "3.prems"(3)[of u v] e show False by simp
  qed
  from rmatch_no_end[OF "3.prems"(1,2) this] have "rmatch (Spaces # p) t = None" by simp
  moreover have "rmatch (Spaces # p) [] = None"
    by (rule rmatch_no_end[OF "3.prems"(1,2)]) (use e in simp)
  ultimately show ?case by simp
next
  case (4 p c cs)
  from "4.prems" have ne: "p \<noteq> []" and last: "last p = Lit e" by (auto split: if_splits)
  have H: "length t \<le> length v" if "(c # cs) @ t = u @ e @ v" for u v
    using "4.prems"(3)[OF that] .
  have H': "length t \<le> length v" if "cs @ t = u @ e @ v" for u v
  proof -
    from that have "(c # cs) @ t = (c # u) @ e @ v" by simp
    from "4.prems"(3)[OF this] show ?thesis .
  qed
  have P2: "rmatch p ((c # cs) @ t) = map_option (\<lambda>(gs, r). (gs, r @ t)) (rmatch p (c # cs))"
    if "isspace c \<Longrightarrow> rmatch (Spaces # p) cs = None"
  proof (cases "isspace c")
    case True
    from "4.IH"(2)[OF True that[OF True] ne last H] show ?thesis by simp
  next
    case False
    from "4.IH"(3)[OF False ne last H] show ?thesis by simp
  qed
  show ?case
  proof (cases "isspace c")
    case True
    have P1: "rmatch (Spaces # p) (cs @ t) = map_option (\<lambda>(gs, r). (gs, r @ t)) (rmatch (Spaces # p) cs)"
      using "4.IH"(1)[OF True _ _ H'] "4.prems"(1,2) by simp
    show ?thesis
    proof (cases "rmatch (Spaces # p) cs")
      case None
      with P2 have "rmatch p ((c # cs) @ t) = map_option (\<lambda>(gs, r). (gs, r @ t)) (rmatch p (c # cs))"
        by simp
      with None P1 True show ?thesis by simp
    next
      case (Some m)
      with P1 True show ?thesis by simp
    qed
  next
    case False
    with P2 show ?thesis by simp
  qed
next
  case (5 p s)
  from "5.prems" have ne: "p \<noteq> []" and last: "last p = Lit e" by (auto split: if_splits)
  note H = "5.prems"(3)
  have P1: "rmatch p (s @ t) = map_option (\<lambda>(gs, r). (gs, r @ t)) (rmatch p s)"
    using "5.IH"(1)[OF ne last H] by simp
  show ?case
  proof (cases "rmatch p s")
    case (Some m)
    with P1 show ?thesis by (cases m) simp
  next
    case None
    with P1 have N: "rmatch p (s @ t) = None" by simp
    show ?thesis
    proof (cases s)
      case Nil
      have "\<And>u v. t = u @ e @ v \<Longrightarrow> False"
      proof -
        fix u v assume "t = u @ e @ v"
        then have "s @ t = u @ e @ v" "length t = length u + length e + length v"
          using Nil by simp_all
        with H[of u v] e show False by simp
      qed
      from rmatch_no_end[OF "5.prems"(1,2) this] have "rmatch (LazyGroup # p) t = None" .
      moreover have "rmatch (LazyGroup # p) [] = None"
        by (rule rmatch_no_end[OF "5.prems"(1,2)]) (use e in simp)
      ultimately show ?thesis using Nil by simp
    next
      case (Cons c cs)
      have "rmatch (LazyGroup # p) (cs @ t) =
          map_option (\<lambda>(gs, r). (gs, r @ t)) (rmatch (LazyGroup # p) cs)"
      proof (rule "5.IH"(2)[OF None Cons "5.prems"(1,2)])
        fix u v assume "cs @ t = u @ e @ v"
        with Cons have "s @ t = (c # u) @ e @ v" by simp
        from H[OF this] show "length t \<le> length v" .
      qed
      moreover have "rmatch (LazyGroup # p) (s @ t) =
          map_option (push_group c) (rmatch (LazyGroup # p) (cs @ t))"
        using N Cons by (simp del: rmatch.simps(5) add: rmatch.simps(5)[of p "c # cs @ t"])
      moreover have "rmatch (LazyGroup # p) s = map_option (push_group c) (rmatch (LazyGroup # p) cs)"
        using None Cons by (simp del: rmatch.simps(5) add: rmatch.simps(5)[of p "c # cs"])
      ultimately show ?thesis
        by (simp add: option.map_comp comp_def push_group_append)
    qed
  qed
qed

lemma rmatch_shorter:
  assumes "p \<noteq> []" "last p = Lit e" "e \<noteq> []" "rmatch p s = Some (gs, r)"
  shows "length r < length s"
proof -
  from rmatch_last_endsD[OF assms(1,2,4)] obtain u where "s = u @ e @ r" by blast
  with assms(3) show ?thesis by simp
qed

lemma re_sub_append:
  assumes p: "p \<noteq> []" "last p = Lit e" and e: "e \<noteq> []"
  shows "(\<And>u v. x @ t = u @ e @ v \<Longrightarrow> length t \<le> length v) \<Longrightarrow>
     re_sub p repl (x @ t) = re_sub p repl x @ t"
proof (induction x rule: length_induct)
  case (1 x)
  note H = "1.prems"
  have M: "rmatch p (x @ t) = map_option (\<lambda>(gs, r). (gs, r @ t)) (rmatch p x)"
    by (rule rmatch_append[OF e p H])
  show ?case
  proof (cases x)
    case Nil
    have "rmatch p t' = None" if "suffix t' t" for t'
    proof (rule rmatch_no_end[OF p])
      fix u v assume "t' = u @ e @ v"
      with that obtain a where "t = (a @ u) @ e @ v" by (auto simp: suffix_def)
      then have "x @ t = (a @ u) @ e @ v" "length t = length a + length u + length e + length v"
        using Nil by simp_all
      with H[of "a @ u" v] e show False by simp
    qed
    then have "re_sub p repl t = t" by (rule re_sub_id)
    moreover have "rmatch p [] = None"
      by (rule rmatch_no_end[OF p]) (use e in simp)
    ultimately show ?thesis using Nil by (simp add: re_sub_Nil)
  next
    case (Cons c cs)
    show ?thesis
    proof (cases "rmatch p x")
      case None
      have "re_sub p repl (cs @ t) = re_sub p repl cs @ t"
      proof (rule "1.IH"[rule_format])
        show "length cs < length x" using Cons by simp
      next
        fix u v assume "cs @ t = u @ e @ v"
        with Cons have "x @ t = (c # u) @ e @ v" by simp
        from H[OF this] show "length t \<le> length v" .
      qed
      with None M Cons show ?thesis by (simp add: re_sub_None)
    next
      case (Some m)
      obtain gs r where m: "m = (gs, r)" by (cases m)
      from Some m have mx: "rmatch p x = Some (gs, r)" by simp
      with M have mxt: "rmatch p (x @ t) = Some (gs, r @ t)" by simp
      from rmatch_shorter[OF p e mx] have lt: "length r < length x" .
      from rmatch_suffix[OF mx] obtain a where a: "x = a @ r" by (auto simp: suffix_def)
      have "re_sub p repl (r @ t) = re_sub p repl r @ t"
      proof (rule "1.IH"[rule_format, OF lt])
        fix u v assume "r @ t = u @ e @ v"
        with a have "x @ t = (a @ u) @ e @ v" by simp
        from H[OF this] show "length t \<le> length v" .
      qed
      moreover have "re_sub p repl (x @ t) = repl gs @ re_sub p repl (r @ t)"
        using lt by (intro re_sub_Some[OF mxt]) simp
      moreover have "re_sub p repl x = repl gs @ re_sub p repl r"
        by (rule re_sub_Some[OF mx lt])
      ultimately show ?thesis by simp
    qed
  qed
qed

text \<open>An occurrence that ends inside the tail lies in the tail or begins with a character of it.\<close>

lemma occurrence_in_tail:
  assumes "x @ t = u @ e @ v" "length v < length t" "\<not> contains e t"
  shows "t \<noteq> [] \<and> hd t \<in> set e"
proof -
  from assms(2) have t: "t \<noteq> []" by auto
  from assms(1) have "x @ t = (u @ e) @ v" by simp
  then obtain w where w: "x = (u @ e) @ w \<and> w @ t = v \<or> x @ w = u @ e \<and> t = w @ v"
    unfolding append_eq_append_conv2 by blast
  with assms(2) have xw: "x @ w = u @ e" and tw: "t = w @ v" by auto
  from tw assms(2) have wne: "w \<noteq> []" by auto
  from xw obtain z where z: "x = u @ z \<and> z @ w = e \<or> x @ z = u \<and> w = z @ e"
    unfolding append_eq_append_conv2 by blast
  then show ?thesis
  proof
    assume "x = u @ z \<and> z @ w = e"
    then have "e = z @ w" by simp
    with wne tw have "hd t \<in> set e" by (cases w) auto
    with t show ?thesis by simp
  next
    assume "x @ z = u \<and> w = z @ e"
    with tw have "t = z @ e @ v" by simp
    then have "contains e t" by (rule containsI)
    with assms(3) show ?thesis by simp
  qed
qed

lemma end_text_eq: "end_text = [10, 62, 62, 62, 62, 62, 62, 62, 32, 116, 101, 115, 116, 47, 116, 101, 115,
    116, 45, 102, 97, 105, 108, 117, 114, 101, 45, 97, 110, 97, 108, 121, 115, 105, 115]"
  by (simp add: end_text_def py_def)

lemma start_text_eq: "start_text = [60, 60, 60, 60, 60, 60, 60, 32, 72, 69, 65, 68, 10]"
  by (simp add: start_text_def py_def)

lemma sep_text_eq: "sep_text = [10, 61, 61, 61, 61, 61, 61, 61, 10]"
  by (simp add: sep_text_def py_def)

lemma vi_text_end: "\<exists>d. vi_text = d @ end_text"
proof -
  have "vi_text = py ''const vi: typeof import('vitest').vi\<newline>======='' @ end_text"
    by (simp add: vi_text_def end_text_def py_def)
  then show ?thesis by blast
qed

lemma texts_nonempty: "start_text \<noteq> []" "sep_text \<noteq> []" "end_text \<noteq> []" "vi_text \<noteq> []"
  by (simp_all add: start_text_eq sep_text_eq end_text_eq vi_text_def py_def)

subsection \<open>When a substitution changes nothing\<close>

lemma resolveGeneric_unchanged:
  assumes "\<And>a ours theirs b. s = a @ start_text @ ours @ sep_text @ theirs @ end_text @ b \<Longrightarrow> False"
  shows "resolveGeneric s = s"
  unfolding resolveGeneric_def
proof (rule re_sub_id)
  fix t assume "suffix t s"
  then obtain a where a: "s = a @ t" by (auto simp: suffix_def)
  show "rmatch general_conflict_pattern t = None"
  proof (cases "rmatch general_conflict_pattern t")
    case None
    then show ?thesis .
  next
    case (Some m)
    obtain gs r where "m = (gs, r)" by (cases m)
    with Some general_matchD obtain ours theirs where
      "t = start_text @ ours @ sep_text @ theirs @ end_text @ r" by blast
    with a assms show ?thesis by blast
  qed
qed

lemma resolveSpecialCase_unchanged:
  assumes "\<And>a ws b. s = a @ start_text @ ws @ vi_text @ b \<Longrightarrow> False"
  shows "resolveSpecialCase s = s"
  unfolding resolveSpecialCase_def
proof (rule re_sub_id)
  fix t assume "suffix t s"
  then obtain a where a: "s = a @ t" by (auto simp: suffix_def)
  show "rmatch vi_conflict_pattern t = None"
  proof (cases "rmatch vi_conflict_pattern t")
    case None
    then show ?thesis .
  next
    case (Some m)
    obtain gs r where "m = (gs, r)" by (cases m)
    with Some vi_matchD obtain ws where "t = start_text @ ws @ vi_text @ r" by blast
    with a assms show ?thesis by blast
  qed
qed

lemma vi_text_sep: "\<exists>d d'. vi_text = d @ sep_text @ d'"
proof -
  have "vi_text = py ''const vi: typeof import('vitest').vi'' @ sep_text @ py ''>>>>>>> test/test-failure-analysis''"
    by (simp add: vi_text_def sep_text_def py_def)
  then show ?thesis by blast
qed

lemma no_start_unchanged:
  assumes "\<not> contains start_text s"
  shows "resolveSpecialCase s = s" and "resolveGeneric s = s"
proof -
  have no: "s = a @ start_text @ b \<Longrightarrow> False" for a b
    using assms containsI by blast
  show "resolveSpecialCase s = s"
    by (rule resolveSpecialCase_unchanged) (use no in blast)
  show "resolveGeneric s = s"
    by (rule resolveGeneric_unchanged) (use no in blast)
qed

lemma no_sep_unchanged:
  assumes "\<not> contains sep_text s"
  shows "resolveSpecialCase s = s" and "resolveGeneric s = s"
proof -
  have no: "s = a @ sep_text @ b \<Longrightarrow> False" for a b
    using assms containsI by blast
  show "resolveSpecialCase s = s"
  proof (rule resolveSpecialCase_unchanged)
    fix a ws b assume s: "s = a @ start_text @ ws @ vi_text @ b"
    from vi_text_sep obtain d d' where "vi_text = d @ sep_text @ d'" by blast
    with s have "s = (a @ start_text @ ws @ d) @ sep_text @ (d' @ b)" by simp
    with no show False by blast
  qed
  show "resolveGeneric s = s"
  proof (rule resolveGeneric_unchanged)
    fix a ours theirs b assume "s = a @ start_text @ ours @ sep_text @ theirs @ end_text @ b"
    then have "s = (a @ start_text @ ours) @ sep_text @ (theirs @ end_text @ b)" by simp
    with no show False by blast
  qed
qed

lemma no_end_unchanged:
  assumes "\<not> contains end_text s"
  shows "resolveSpecialCase s = s" and "resolveGeneric s = s"
proof -
  have no: "s = a @ end_text @ b \<Longrightarrow> False" for a b
    using assms containsI by blast
  show "resolveSpecialCase s = s"
  proof (rule resolveSpecialCase_unchanged)
    fix a ws b assume s: "s = a @ start_text @ ws @ vi_text @ b"
    from vi_text_end obtain d where "vi_text = d @ end_text" by blast
    with s have "s = (a @ start_text @ ws @ d) @ end_text @ b" by simp
    with no show False by blast
  qed
  show "resolveGeneric s = s"
  proof (rule resolveGeneric_unchanged)
    fix a ours theirs b assume "s = a @ start_text @ ours @ sep_text @ theirs @ end_text @ b"
    then have "s = (a @ start_text @ ours @ sep_text @ theirs) @ end_text @ b" by simp
    with no show False by blast
  qed
qed

subsection \<open>The text after the last end marker\<close>

lemma tail_after_start:
  assumes "\<not> contains end_text (start_text @ t)" "x @ start_text @ t = u @ end_text @ v"
  shows "length (start_text @ t) \<le> length v"
proof (rule ccontr)
  assume "\<not> length (start_text @ t) \<le> length v"
  then have "length v < length (start_text @ t)" by simp
  from occurrence_in_tail[OF assms(2) this assms(1)] have "hd (start_text @ t) \<in> set end_text" by simp
  then show False by (simp add: start_text_eq end_text_eq)
qed

lemma resolveGeneric_tail:
  assumes "\<not> contains end_text (start_text @ t)"
  shows "resolveGeneric (x @ start_text @ t) = resolveGeneric x @ start_text @ t"
  unfolding resolveGeneric_def
proof (rule re_sub_append)
  show "general_conflict_pattern \<noteq> []" "last general_conflict_pattern = Lit end_text"
    by (simp_all add: general_conflict_pattern_eq)
  show "end_text \<noteq> []" by (rule texts_nonempty)
  show "length (start_text @ t) \<le> length v" if "x @ start_text @ t = u @ end_text @ v" for u v
    by (rule tail_after_start[OF assms that])
qed

lemma resolveSpecialCase_tail:
  assumes "\<not> contains end_text (start_text @ t)"
  shows "resolveSpecialCase (x @ start_text @ t) = resolveSpecialCase x @ start_text @ t"
  unfolding resolveSpecialCase_def
proof (rule re_sub_append)
  show "vi_conflict_pattern \<noteq> []" "last vi_conflict_pattern = Lit vi_text"
    by (simp_all add: vi_conflict_pattern_eq)
  show "vi_text \<noteq> []" by (rule texts_nonempty)
  show "length (start_text @ t) \<le> length v" if eq: "x @ start_text @ t = u @ vi_text @ v" for u v
  proof -
    from vi_text_end obtain d where "vi_text = d @ end_text" by blast
    with eq have "x @ start_text @ t = (u @ d) @ end_text @ v" by simp
    from tail_after_start[OF assms this] show ?thesis .
  qed
qed

lemma resolve_content_tail:
  assumes "\<not> contains end_text (start_text @ t)"
  shows "resolve_content (x @ start_text @ t) = resolve_content x @ start_text @ t"
  by (simp add: resolve_content_def resolveSpecialCase_tail[OF assms] resolveGeneric_tail[OF assms])

subsection \<open>Occurrences of the separator\<close>

lemma after_prefix:
  assumes "p @ R = A @ Y" "length p \<le> length A"
  shows "\<exists>w. R = w @ Y"
proof -
  from assms(1) obtain z where "p = A @ z \<and> z @ R = Y \<or> p @ z = A \<and> R = z @ Y"
    unfolding append_eq_append_conv2 by blast
  then show ?thesis
  proof
    assume a: "p = A @ z \<and> z @ R = Y"
    with assms(2) have "z = []" by auto
    with a have "R = [] @ Y" by simp
    then show ?thesis by blast
  next
    assume "p @ z = A \<and> R = z @ Y"
    then show ?thesis by blast
  qed
qed

lemma suffix_short: "suffix a (x @ y) \<Longrightarrow> length a \<le> length y \<Longrightarrow> suffix a y"
  by (auto simp: suffix_append)

lemma first_occurrence_tail:
  assumes eq: "ours @ sep @ tail = w @ sep @ c'" and no: "\<not> contains sep (ours @ butlast sep)"
    and ne: "sep \<noteq> []"
  shows "suffix c' tail"
proof -
  from eq obtain us where "ours = w @ us \<and> us @ sep @ tail = sep @ c' \<or> ours @ us = w \<and> sep @ tail = us @ sep @ c'"
    unfolding append_eq_append_conv2 by blast
  then show ?thesis
  proof
    assume a: "ours = w @ us \<and> us @ sep @ tail = sep @ c'"
    show ?thesis
    proof (cases "us = []")
      case True
      with a show ?thesis by simp
    next
      case False
      from a have "prefix sep (us @ sep @ tail)" by simp
      then have "sep = take (length sep) (us @ sep @ tail)"
        by (metis append_eq_conv_conj prefix_def)
      also have "us @ sep @ tail = (us @ butlast sep) @ ([last sep] @ tail)"
        using ne by simp
      also have "take (length sep) \<dots> = take (length sep) (us @ butlast sep)"
      proof -
        from False have "0 < length us" by simp
        then have "length sep \<le> length us + (length sep - 1)" by arith
        then have "length sep - length (us @ butlast sep) = 0" by simp
        then show ?thesis by (simp add: take_append del: append_assoc)
      qed
      finally have "prefix sep (us @ butlast sep)" by (metis take_is_prefix)
      then obtain b where "us @ butlast sep = sep @ b" by (auto simp: prefix_def)
      with a have "ours @ butlast sep = w @ sep @ b" by simp
      then have "contains sep (ours @ butlast sep)" by (rule containsI)
      with no show ?thesis by simp
    qed
  next
    assume a: "ours @ us = w \<and> sep @ tail = us @ sep @ c'"
    then have "sep @ tail = (us @ sep) @ c'" by simp
    then have "suffix c' (sep @ tail)" by (metis suffixI)
    moreover from a have "length sep + length tail = length us + length sep + length c'"
      by (metis length_append add.assoc)
    then have "length c' \<le> length tail" by simp
    ultimately show ?thesis by (rule suffix_short)
  qed
qed

lemma empty_ours_unchanged:
  assumes "\<not> contains sep_text (py ''\<newline>'' @ rest)"
  shows "resolveGeneric (start_text @ py ''=======\<newline>'' @ rest) = start_text @ py ''=======\<newline>'' @ rest"
proof (rule resolveGeneric_unchanged)
  fix a ours theirs b
  assume "start_text @ py ''=======\<newline>'' @ rest = a @ start_text @ ours @ sep_text @ theirs @ end_text @ b"
  then have "start_text @ (py ''=======\<newline>'' @ rest) = (a @ start_text @ ours) @ (sep_text @ theirs @ end_text @ b)"
    by simp
  from after_prefix[OF this] obtain w where "py ''=======\<newline>'' @ rest = w @ sep_text @ theirs @ end_text @ b"
    by auto
  then have "contains sep_text (py ''=======\<newline>'' @ rest)" by (rule containsI)
  then have "contains (10 # [61, 61, 61, 61, 61, 61, 61, 10]) ([61, 61, 61, 61, 61, 61, 61] @ (py ''\<newline>'' @ rest))"
    by (simp add: sep_text_eq py_def)
  then have "contains (10 # [61, 61, 61, 61, 61, 61, 61, 10]) (py ''\<newline>'' @ rest)"
    by (rule contains_skip[rotated]) simp
  with assms show False by (simp add: sep_text_eq)
qed

lemma empty_theirs_unchanged:
  assumes "\<not> contains sep_text (ours @ py ''\<newline>======='')" "\<not> contains end_text post"
  shows "resolveGeneric (start_text @ ours @ sep_text @ py ''>>>>>>> test/test-failure-analysis'' @ post)
    = start_text @ ours @ sep_text @ py ''>>>>>>> test/test-failure-analysis'' @ post"
proof (rule resolveGeneric_unchanged)
  let ?E = "py ''>>>>>>> test/test-failure-analysis''"
  fix a ours' theirs b
  assume "start_text @ ours @ sep_text @ ?E @ post = a @ start_text @ ours' @ sep_text @ theirs @ end_text @ b"
  then have "start_text @ (ours @ sep_text @ ?E @ post) = (a @ start_text @ ours') @ (sep_text @ theirs @ end_text @ b)"
    by simp
  from after_prefix[OF this] obtain w where w: "ours @ sep_text @ (?E @ post) = w @ sep_text @ (theirs @ end_text @ b)"
    by auto
  have "butlast sep_text = py ''\<newline>=======''" by (simp add: sep_text_eq py_def)
  with assms(1) have "\<not> contains sep_text (ours @ butlast sep_text)" by simp
  from first_occurrence_tail[OF w this texts_nonempty(2)] have "suffix (theirs @ end_text @ b) (?E @ post)" .
  moreover have "contains end_text (theirs @ end_text @ b)" by (rule containsI) simp
  ultimately have "contains end_text (?E @ post)" by (rule contains_suffix)
  then have "contains (10 # tl end_text) (?E @ post)" by (simp add: end_text_eq)
  then have "contains (10 # tl end_text) post"
    by (rule contains_skip[rotated]) (simp add: py_def)
  with assms(2) show False by (simp add: end_text_eq)
qed

subsection \<open>Files\<close>

lemma no_marker_no_start_text:
  assumes "\<not> contains (py ''<<<<<<< HEAD'') content"
  shows "\<not> contains start_text content"
proof
  assume "contains start_text content"
  then obtain a b where "content = a @ start_text @ b" by (auto simp: contains_iff)
  moreover have "start_text = py ''<<<<<<< HEAD'' @ [10]" by (simp add: start_text_def py_def)
  ultimately have "content = a @ py ''<<<<<<< HEAD'' @ ([10] @ b)" by simp
  then have "contains (py ''<<<<<<< HEAD'') content" by (rule containsI)
  with assms show False by simp
qed

lemma path_exists_print [simp]: "path_exists (print out w) = path_exists w"
  by (simp add: path_exists_def print_def fun_eq_iff)

lemma stdout_print [simp]: "stdout (print out w) = stdout w @ [out]"
  by (simp add: print_def)

lemma read_file_Inr_exists: "read_file p w = Inr c \<Longrightarrow> path_exists w p"
  by (auto simp: read_file_def path_exists_def split: option.splits)

lemma write_file_Inr:
  assumes "write_file p c w = Inr w'" "path_exists w p"
  shows "path_exists w' = path_exists w" and "stdout w' = stdout w"
  using assms
  by (auto simp: write_file_def path_exists_def fun_eq_iff split: option.splits if_splits)

lemma resolve_conflicts_step:
  assumes "path_exists w p"
  defines "w' \<equiv> (case resolve_conflicts p w of Inr w' \<Rightarrow> w' | Inl e \<Rightarrow> print (Error p e) w)"
  shows "path_exists w' = path_exists w"
    and "map outcome_path (stdout w') = map outcome_path (stdout w) @ [p]"
proof -
  show "path_exists w' = path_exists w"
    unfolding w'_def resolve_conflicts_def
    using write_file_Inr(1)[OF _ assms(1)] by (auto split: sum.splits)
  show "map outcome_path (stdout w') = map outcome_path (stdout w) @ [p]"
    unfolding w'_def resolve_conflicts_def
    using write_file_Inr(2)[OF _ assms(1)] by (auto split: sum.splits)
qed

lemma resolve_generic_conflicts_step:
  assumes "path_exists w p"
  shows "path_exists (resolve_generic_conflicts p preference w) = path_exists w"
    and "map outcome_path (stdout (resolve_generic_conflicts p preference w))
      = map outcome_path (stdout w) @ [p]"
proof -
  show "path_exists (resolve_generic_conflicts p preference w) = path_exists w"
    unfolding resolve_generic_conflicts_def
    using write_file_Inr(1)[OF _ assms(1)] by (auto split: sum.splits)
  show "map outcome_path (stdout (resolve_generic_conflicts p preference w))
      = map outcome_path (stdout w) @ [p]"
    unfolding resolve_generic_conflicts_def
    using write_file_Inr(2)[OF _ assms(1)] by (auto split: sum.splits)
qed

lemma process_files_outcomes:
  "path_exists (process_files ps w) = path_exists w \<and>
   map outcome_path (stdout (process_files ps w))
     = map outcome_path (stdout w) @ filter (path_exists w) ps"
proof (induction ps arbitrary: w)
  case Nil
  show ?case by simp
next
  case (Cons p ps)
  show ?case
  proof (cases "path_exists w p")
    case True
    let ?w' = "case resolve_conflicts p w of Inr w' \<Rightarrow> w' | Inl e \<Rightarrow> print (Error p e) w"
    from resolve_conflicts_step[OF True] have "path_exists ?w' = path_exists w"
      "map outcome_path (stdout ?w') = map outcome_path (stdout w) @ [p]" by simp_all
    with Cons.IH[of ?w'] True show ?thesis by simp
  next
    case False
    with Cons.IH[of w] show ?thesis by simp
  qed
qed

lemma process_items_outcomes:
  "path_exists (process_items items w) = path_exists w \<and>
   map outcome_path (stdout (process_items items w))
     = map outcome_path (stdout w) @ filter (path_exists w) (map fst items)"
proof (induction items arbitrary: w)
  case Nil
  show ?case by simp
next
  case (Cons item items)
  obtain p preference where item: "item = (p, preference)" by (cases item)
  show ?case
  proof (cases "path_exists w p")
    case True
    from resolve_generic_conflicts_step[OF True, of preference]
      Cons.IH[of "resolve_generic_conflicts p preference w"] True item
    show ?thesis by simp
  next
    case False
    with Cons.IH[of w] item show ?thesis by simp
  qed
qed

lemma process_files_append: "process_files (ps @ qs) w = process_files qs (process_files ps w)"
  by (induction ps arbitrary: w) simp_all

lemma process_items_append: "process_items (ps @ qs) w = process_items qs (process_items ps w)"
  by (induction ps arbitrary: w) auto

subsection \<open>The lazy group takes the shortest text\<close>

lemma rmatch_Lazy_shortest:
  "rmatch (LazyGroup # p) s = Some (gs, r) \<Longrightarrow>
     \<exists>g gs' s'. gs = g # gs' \<and> s = g @ s' \<and> rmatch p s' = Some (gs', r) \<and>
       (\<forall>g0 s0. s = g0 @ s0 \<and> length g0 < length g \<longrightarrow> rmatch p s0 = None)"
proof (induction s arbitrary: gs)
  case Nil
  then show ?case by (auto split: option.splits)
next
  case (Cons c cs)
  show ?case
  proof (cases "rmatch p (c # cs)")
    case (Some m)
    with Cons.prems show ?thesis by (cases m) auto
  next
    case None
    with Cons.prems obtain gs0 where
      m0: "rmatch (LazyGroup # p) cs = Some (gs0, r)" and gs: "push_group c (gs0, r) = (gs, r)"
      by (auto simp del: rmatch.simps(5) simp add: rmatch.simps(5)[of p "c # cs"] split: prod.splits)
        (metis push_group.elims snd_conv prod.inject)
    from Cons.IH[OF m0] obtain g gs' s' where
      g: "gs0 = g # gs'" "cs = g @ s'" "rmatch p s' = Some (gs', r)"
      and short: "\<forall>g0 s0. cs = g0 @ s0 \<and> length g0 < length g \<longrightarrow> rmatch p s0 = None" by blast
    from g gs have 1: "gs = (c # g) # gs'" "c # cs = (c # g) @ s'" by auto
    have "rmatch p s0 = None" if "c # cs = g0 @ s0" "length g0 < length (c # g)" for g0 s0
    proof (cases g0)
      case Nil
      with that None show ?thesis by simp
    next
      case (Cons x g1)
      with that have "cs = g1 @ s0" "length g1 < length g" by auto
      with short show ?thesis by blast
    qed
    with 1 g(3) show ?thesis by blast
  qed
qed

lemma first_occurrence_unique:
  assumes eq: "a @ sep @ b = a' @ sep @ b'"
    and no: "\<not> contains sep (a @ butlast sep)" and no': "\<not> contains sep (a' @ butlast sep)"
    and ne: "sep \<noteq> []"
  shows "a = a' \<and> b = b'"
proof -
  from first_occurrence_tail[OF eq no ne] have "length b' \<le> length b" by (rule suffix_length_le)
  moreover from first_occurrence_tail[OF eq[symmetric] no' ne] have "length b \<le> length b'"
    by (rule suffix_length_le)
  ultimately have "length b = length b'" by simp
  moreover from eq have "(a @ sep) @ b = (a' @ sep) @ b'" by simp
  ultimately have "a @ sep = a' @ sep" "b = b'" by (auto simp del: append_assoc)
  then show ?thesis by simp
qed

lemma lazy_lit_first:
  assumes ne: "sep \<noteq> []"
    and sh: "\<And>g0 s0. ours @ sep @ s3 = g0 @ s0 \<Longrightarrow> length g0 < length ours \<Longrightarrow>
      rmatch (Lit sep # q) s0 = None"
    and mono: "\<And>x. rmatch q (x @ s3) \<noteq> None"
  shows "\<not> contains sep (ours @ butlast sep)"
proof
  assume "contains sep (ours @ butlast sep)"
  then obtain a b where ab: "ours @ butlast sep = a @ sep @ b" unfolding contains_iff by blast
  then have "length (ours @ butlast sep) = length (a @ sep @ b)" by simp
  then have "length ours + (length sep - 1) = length a + length sep + length b" by simp
  moreover from ne have "0 < length sep" by simp
  ultimately have la: "length a < length ours" by arith
  have "sep = butlast sep @ [last sep]" using ne by simp
  then have "ours @ sep @ s3 = (ours @ butlast sep) @ [last sep] @ s3"
    by (metis append.assoc)
  also have "\<dots> = a @ (sep @ (b @ [last sep]) @ s3)" unfolding ab by simp
  finally have eq: "ours @ sep @ s3 = a @ (sep @ (b @ [last sep]) @ s3)" .
  from sh[OF eq la] have "rmatch (Lit sep # q) (sep @ (b @ [last sep]) @ s3) = None" .
  then have "rmatch q ((b @ [last sep]) @ s3) = None" by simp
  with mono[of "b @ [last sep]"] show False by simp
qed

lemma rmatch_Lazy_shortestE:
  assumes "rmatch (LazyGroup # p) s = Some (gs, r)"
  obtains g gs' s' where "gs = g # gs'" "s = g @ s'" "rmatch p s' = Some (gs', r)"
    "\<And>g0 s0. s = g0 @ s0 \<Longrightarrow> length g0 < length g \<Longrightarrow> rmatch p s0 = None"
  using rmatch_Lazy_shortest[OF assms] by blast

lemma general_match_shortest:
  assumes "rmatch general_conflict_pattern s = Some (gs, r)"
  shows "\<exists>ours theirs. gs = [ours, theirs] \<and> s = start_text @ ours @ sep_text @ theirs @ end_text @ r
    \<and> \<not> contains sep_text (ours @ butlast sep_text) \<and> \<not> contains end_text (theirs @ butlast end_text)"
proof -
  from assms have "rmatch (Lit start_text # [LazyGroup, Lit sep_text, LazyGroup, Lit end_text]) s = Some (gs, r)"
    by (simp only: general_conflict_pattern_eq)
  from rmatch_LitD[OF this] obtain s1 where s1: "s = start_text @ s1"
    and m1: "rmatch (LazyGroup # [Lit sep_text, LazyGroup, Lit end_text]) s1 = Some (gs, r)"
    by blast
  obtain ours gs1 s2 where gs: "gs = ours # gs1" and s2: "s1 = ours @ s2"
    and m2: "rmatch (Lit sep_text # [LazyGroup, Lit end_text]) s2 = Some (gs1, r)"
    and sh1: "\<And>g0 s0. s1 = g0 @ s0 \<Longrightarrow> length g0 < length ours \<Longrightarrow>
      rmatch (Lit sep_text # [LazyGroup, Lit end_text]) s0 = None"
  proof (rule rmatch_Lazy_shortestE[OF m1])
    fix g gs' s'
    assume "gs = g # gs'" "s1 = g @ s'"
      "rmatch [Lit sep_text, LazyGroup, Lit end_text] s' = Some (gs', r)"
      "\<And>g0 s0. s1 = g0 @ s0 \<Longrightarrow> length g0 < length g \<Longrightarrow>
        rmatch [Lit sep_text, LazyGroup, Lit end_text] s0 = None"
    then show thesis by (rule that)
  qed
  from rmatch_LitD[OF m2] obtain s3 where s3: "s2 = sep_text @ s3"
    and m3: "rmatch (LazyGroup # [Lit end_text]) s3 = Some (gs1, r)" by blast
  obtain theirs gs2 s4 where gs1: "gs1 = theirs # gs2" and s4: "s3 = theirs @ s4"
    and m4: "rmatch (Lit end_text # []) s4 = Some (gs2, r)"
    and sh2: "\<And>g0 s0. s3 = g0 @ s0 \<Longrightarrow> length g0 < length theirs \<Longrightarrow>
      rmatch (Lit end_text # []) s0 = None"
  proof (rule rmatch_Lazy_shortestE[OF m3])
    fix g gs' s'
    assume "gs1 = g # gs'" "s3 = g @ s'"
      "rmatch [Lit end_text] s' = Some (gs', r)"
      "\<And>g0 s0. s3 = g0 @ s0 \<Longrightarrow> length g0 < length g \<Longrightarrow>
        rmatch [Lit end_text] s0 = None"
    then show thesis by (rule that)
  qed
  from rmatch_LitD[OF m4] obtain s5 where s5: "s4 = end_text @ s5" and m5: "rmatch [] s5 = Some (gs2, r)"
    by blast
  from m5 have e: "gs2 = []" "s5 = r" by auto
  have s3': "s3 = theirs @ end_text @ r" using s4 s5 e by simp
  have s1': "s1 = ours @ sep_text @ s3" using s2 s3 by simp
  have no1: "\<not> contains sep_text (ours @ butlast sep_text)"
  proof (rule lazy_lit_first[OF texts_nonempty(2)])
    show "rmatch (Lit sep_text # [LazyGroup, Lit end_text]) s0 = None"
      if "ours @ sep_text @ s3 = g0 @ s0" "length g0 < length ours" for g0 s0
      using sh1[of g0 s0] that s1' by simp
    show "rmatch [LazyGroup, Lit end_text] (x @ s3) \<noteq> None" for x
    proof -
      have "rmatch [Lit end_text] (end_text @ r) \<noteq> None" by simp
      then have "rmatch (LazyGroup # [Lit end_text]) ((x @ theirs) @ end_text @ r) \<noteq> None"
        by (rule rmatch_LazyI)
      then show ?thesis unfolding s3' by simp
    qed
  qed
  have no2: "\<not> contains end_text (theirs @ butlast end_text)"
  proof (rule lazy_lit_first[OF texts_nonempty(3)])
    show "rmatch (Lit end_text # []) s0 = None"
      if "theirs @ end_text @ r = g0 @ s0" "length g0 < length theirs" for g0 s0
      using sh2[of g0 s0] that s3' by simp
    show "rmatch [] (x @ r) \<noteq> None" for x by simp
  qed
  from s1 s1' s3' gs gs1 e no1 no2 show ?thesis by simp
qed

lemma general_match_first:
  assumes s: "s = start_text @ ours @ sep_text @ theirs @ end_text @ r"
    and no1: "\<not> contains sep_text (ours @ butlast sep_text)"
    and no2: "\<not> contains end_text (theirs @ butlast end_text)"
  shows "rmatch general_conflict_pattern s = Some ([ours, theirs], r)"
proof -
  from general_matchI[of ours theirs r] s obtain m where "rmatch general_conflict_pattern s = Some m"
    by auto
  then obtain gs' r' where m: "rmatch general_conflict_pattern s = Some (gs', r')" by (cases m) auto
  from general_match_shortest[OF m] obtain ours' theirs' where gs': "gs' = [ours', theirs']"
    and s': "s = start_text @ ours' @ sep_text @ theirs' @ end_text @ r'"
    and no1': "\<not> contains sep_text (ours' @ butlast sep_text)"
    and no2': "\<not> contains end_text (theirs' @ butlast end_text)" by blast
  from s s' have eq1: "ours @ sep_text @ (theirs @ end_text @ r) = ours' @ sep_text @ (theirs' @ end_text @ r')"
    by simp
  from first_occurrence_unique[OF eq1 no1 no1' texts_nonempty(2)]
  have o: "ours = ours'" and eq2: "theirs @ end_text @ r = theirs' @ end_text @ r'" by simp_all
  from first_occurrence_unique[OF eq2 no2 no2' texts_nonempty(3)]
  have "theirs = theirs'" "r = r'" by simp_all
  with o gs' m show ?thesis by simp
qed

lemma general_match_None_iff:
  "rmatch general_conflict_pattern s = None \<longleftrightarrow>
     \<not> (\<exists>ours theirs r. s = start_text @ ours @ sep_text @ theirs @ end_text @ r)"
proof
  assume n: "rmatch general_conflict_pattern s = None"
  show "\<not> (\<exists>ours theirs r. s = start_text @ ours @ sep_text @ theirs @ end_text @ r)"
  proof
    assume "\<exists>ours theirs r. s = start_text @ ours @ sep_text @ theirs @ end_text @ r"
    then obtain ours theirs r where "s = start_text @ ours @ sep_text @ theirs @ end_text @ r" by blast
    with general_matchI[of ours theirs r] n show False by simp
  qed
next
  assume no: "\<not> (\<exists>ours theirs r. s = start_text @ ours @ sep_text @ theirs @ end_text @ r)"
  show "rmatch general_conflict_pattern s = None"
  proof (cases "rmatch general_conflict_pattern s")
    case None
    then show ?thesis .
  next
    case (Some m)
    obtain gs r where "m = (gs, r)" by (cases m)
    with Some general_matchD[of s gs r] no show ?thesis by blast
  qed
qed

subsection \<open>The match of the first pattern\<close>

lemma rmatch_Spaces_vi:
  assumes "list_all isspace ws"
  shows "rmatch [Spaces, Lit vi_text] (ws @ vi_text @ r) = Some ([], r)"
  using assms
proof (induction ws)
  case Nil
  obtain v where v: "vi_text = 99 # v" by (simp add: vi_text_def py_def)
  have "rmatch [Lit vi_text] (vi_text @ r) = Some ([], r)" by simp
  moreover have "\<not> isspace 99" by (simp add: isspace_def)
  ultimately show ?case unfolding v by simp
next
  case (Cons w ws)
  then show ?case by simp
qed

lemma vi_match_iff:
  "rmatch vi_conflict_pattern s = Some (gs, r) \<longleftrightarrow>
     gs = [] \<and> (\<exists>ws. list_all isspace ws \<and> s = start_text @ ws @ vi_text @ r)"
proof
  assume m: "rmatch vi_conflict_pattern s = Some (gs, r)"
  from vi_matchD[OF m] obtain ws where ws: "list_all isspace ws" "s = start_text @ ws @ vi_text @ r"
    by blast
  with rmatch_Spaces_vi[OF ws(1), of r] have "rmatch vi_conflict_pattern s = Some ([], r)"
    by (simp add: vi_conflict_pattern_eq)
  with m ws show "gs = [] \<and> (\<exists>ws. list_all isspace ws \<and> s = start_text @ ws @ vi_text @ r)"
    by auto
next
  assume "gs = [] \<and> (\<exists>ws. list_all isspace ws \<and> s = start_text @ ws @ vi_text @ r)"
  then obtain ws where "gs = []" "list_all isspace ws" "s = start_text @ ws @ vi_text @ r" by blast
  with rmatch_Spaces_vi[of ws r] show "rmatch vi_conflict_pattern s = Some (gs, r)"
    by (simp add: vi_conflict_pattern_eq)
qed

lemma vi_match_None_iff:
  "rmatch vi_conflict_pattern s = None \<longleftrightarrow>
     \<not> (\<exists>ws r. list_all isspace ws \<and> s = start_text @ ws @ vi_text @ r)"
proof (cases "rmatch vi_conflict_pattern s")
  case None
  have "\<not> (\<exists>ws r. list_all isspace ws \<and> s = start_text @ ws @ vi_text @ r)"
  proof
    assume "\<exists>ws r. list_all isspace ws \<and> s = start_text @ ws @ vi_text @ r"
    then obtain ws r where "list_all isspace ws" "s = start_text @ ws @ vi_text @ r" by blast
    then have "rmatch vi_conflict_pattern s = Some ([], r)" unfolding vi_match_iff by blast
    with None show False by simp
  qed
  with None show ?thesis by simp
next
  case (Some m)
  obtain gs r where "m = (gs, r)" by (cases m)
  with Some have "rmatch vi_conflict_pattern s = Some (gs, r)" by simp
  then have "\<exists>ws. list_all isspace ws \<and> s = start_text @ ws @ vi_text @ r" unfolding vi_match_iff by blast
  with Some show ?thesis by auto
qed

subsection \<open>The substitutions, span by span\<close>

lemma resolveGeneric_Nil: "resolveGeneric [] = []"
proof -
  have "rmatch general_conflict_pattern [] = None"
    unfolding general_match_None_iff using texts_nonempty by simp
  then show ?thesis by (simp add: resolveGeneric_def re_sub_Nil)
qed

lemma resolveGeneric_keep:
  assumes "\<forall>ours theirs r. c # s \<noteq> start_text @ ours @ sep_text @ theirs @ end_text @ r"
  shows "resolveGeneric (c # s) = c # resolveGeneric s"
proof -
  from assms have "rmatch general_conflict_pattern (c # s) = None"
    unfolding general_match_None_iff by blast
  then show ?thesis by (simp add: resolveGeneric_def re_sub_None)
qed

lemma resolveGeneric_region:
  assumes "\<not> contains sep_text (ours @ butlast sep_text)" "\<not> contains end_text (theirs @ butlast end_text)"
  shows "resolveGeneric (start_text @ ours @ sep_text @ theirs @ end_text @ s) = theirs @ resolveGeneric s"
proof -
  have m: "rmatch general_conflict_pattern (start_text @ ours @ sep_text @ theirs @ end_text @ s)
      = Some ([ours, theirs], s)"
    by (rule general_match_first[OF refl assms])
  have "length s < length (start_text @ ours @ sep_text @ theirs @ end_text @ s)"
    using texts_nonempty by simp
  from re_sub_Some[OF m this] show ?thesis
    by (simp add: resolveGeneric_def keep_theirs_def group_def)
qed

lemma rewrites_general_unique: "rewrites_general s t \<Longrightarrow> t = resolveGeneric s"
proof (induction rule: rewrites_general.induct)
  case rg_Nil
  show ?case by (simp add: resolveGeneric_Nil)
next
  case (rg_keep c s t)
  then show ?case by (simp add: resolveGeneric_keep)
next
  case (rg_theirs ours theirs s t)
  then show ?case by (simp add: resolveGeneric_region)
qed

lemma rewrites_general_resolveGeneric: "rewrites_general s (resolveGeneric s)"
proof (induction s rule: length_induct)
  case (1 s)
  show ?case
  proof (cases "rmatch general_conflict_pattern s")
    case None
    show ?thesis
    proof (cases s)
      case Nil
      then show ?thesis by (simp add: resolveGeneric_Nil rg_Nil)
    next
      case (Cons c cs)
      from None have no: "\<forall>ours theirs r. c # cs \<noteq> start_text @ ours @ sep_text @ theirs @ end_text @ r"
        unfolding general_match_None_iff Cons by blast
      from "1.IH" Cons have "rewrites_general cs (resolveGeneric cs)" by simp
      with no have "rewrites_general (c # cs) (c # resolveGeneric cs)" by (rule rg_keep)
      with no Cons show ?thesis by (simp add: resolveGeneric_keep)
    qed
  next
    case (Some m)
    obtain gs r where m: "m = (gs, r)" by (cases m)
    with Some have mr: "rmatch general_conflict_pattern s = Some (gs, r)" by simp
    from general_match_shortest[OF mr] obtain ours theirs where
      s: "s = start_text @ ours @ sep_text @ theirs @ end_text @ r"
      and no1: "\<not> contains sep_text (ours @ butlast sep_text)"
      and no2: "\<not> contains end_text (theirs @ butlast end_text)" by blast
    from s texts_nonempty have "length r < length s" by simp
    with "1.IH" have "rewrites_general r (resolveGeneric r)" by simp
    with no1 no2 have "rewrites_general (start_text @ ours @ sep_text @ theirs @ end_text @ r)
        (theirs @ resolveGeneric r)" by (rule rg_theirs)
    then show ?thesis unfolding s by (simp add: resolveGeneric_region[OF no1 no2])
  qed
qed

lemma resolveSpecialCase_Nil: "resolveSpecialCase [] = []"
proof -
  have "rmatch vi_conflict_pattern [] = None"
    unfolding vi_match_None_iff using texts_nonempty by simp
  then show ?thesis by (simp add: resolveSpecialCase_def re_sub_Nil)
qed

lemma resolveSpecialCase_keep:
  assumes "\<forall>ws r. list_all isspace ws \<longrightarrow> c # s \<noteq> start_text @ ws @ vi_text @ r"
  shows "resolveSpecialCase (c # s) = c # resolveSpecialCase s"
proof -
  from assms have "rmatch vi_conflict_pattern (c # s) = None"
    unfolding vi_match_None_iff by blast
  then show ?thesis by (simp add: resolveSpecialCase_def re_sub_None)
qed

lemma resolveSpecialCase_region:
  assumes "list_all isspace ws"
  shows "resolveSpecialCase (start_text @ ws @ vi_text @ s) = resolveSpecialCase s"
proof -
  have m: "rmatch vi_conflict_pattern (start_text @ ws @ vi_text @ s) = Some ([], s)"
    unfolding vi_match_iff using assms by blast
  have "length s < length (start_text @ ws @ vi_text @ s)"
    using texts_nonempty by simp
  from re_sub_Some[OF m this] show ?thesis
    by (simp add: resolveSpecialCase_def)
qed

lemma rewrites_vi_unique: "rewrites_vi s t \<Longrightarrow> t = resolveSpecialCase s"
proof (induction rule: rewrites_vi.induct)
  case rv_Nil
  show ?case by (simp add: resolveSpecialCase_Nil)
next
  case (rv_keep c s t)
  then show ?case by (simp add: resolveSpecialCase_keep)
next
  case (rv_cut ws s t)
  then show ?case by (simp add: resolveSpecialCase_region)
qed

lemma rewrites_vi_resolveSpecialCase: "rewrites_vi s (resolveSpecialCase s)"
proof (induction s rule: length_induct)
  case (1 s)
  show ?case
  proof (cases "rmatch vi_conflict_pattern s")
    case None
    show ?thesis
    proof (cases s)
      case Nil
      then show ?thesis by (simp add: resolveSpecialCase_Nil rv_Nil)
    next
      case (Cons c cs)
      from None have no: "\<forall>ws r. list_all isspace ws \<longrightarrow> c # cs \<noteq> start_text @ ws @ vi_text @ r"
        unfolding vi_match_None_iff Cons by blast
      from "1.IH" Cons have "rewrites_vi cs (resolveSpecialCase cs)" by simp
      with no have "rewrites_vi (c # cs) (c # resolveSpecialCase cs)" by (rule rv_keep)
      with no Cons show ?thesis by (simp add: resolveSpecialCase_keep)
    qed
  next
    case (Some m)
    obtain gs r where m: "m = (gs, r)" by (cases m)
    with Some have mr: "rmatch vi_conflict_pattern s = Some (gs, r)" by simp
    from vi_matchD[OF mr] obtain ws where ws: "list_all isspace ws"
      and s: "s = start_text @ ws @ vi_text @ r" by blast
    from s texts_nonempty have "length r < length s" by simp
    with "1.IH" have "rewrites_vi r (resolveSpecialCase r)" by simp
    with ws have "rewrites_vi (start_text @ ws @ vi_text @ r) (resolveSpecialCase r)"
      by (rule rv_cut)
    then show ?thesis unfolding s by (simp add: resolveSpecialCase_region[OF ws])
  qed
qed

subsection \<open>Occurrences across a junction\<close>

lemma occurrence_cases:
  assumes "a @ b = u @ e @ v"
  shows "(\<exists>v'. a = u @ e @ v') \<or> (\<exists>u'. b = u' @ e @ v) \<or>
    (\<exists>e1 e2. e = e1 @ e2 \<and> e1 \<noteq> [] \<and> e2 \<noteq> [] \<and> a = u @ e1 \<and> b = e2 @ v)"
proof -
  from assms have "a @ b = (u @ e) @ v" by simp
  then obtain w where w: "a = (u @ e) @ w \<and> w @ b = v \<or> a @ w = u @ e \<and> b = w @ v"
    unfolding append_eq_append_conv2 by blast
  then show ?thesis
  proof
    assume "a = (u @ e) @ w \<and> w @ b = v"
    then have "a = u @ e @ w" by simp
    then show ?thesis by blast
  next
    assume aw: "a @ w = u @ e \<and> b = w @ v"
    then obtain z where z: "a = u @ z \<and> z @ w = e \<or> a @ z = u \<and> w = z @ e"
      unfolding append_eq_append_conv2 by blast
    then show ?thesis
    proof
      assume az: "a = u @ z \<and> z @ w = e"
      show ?thesis
      proof (cases "w = []")
        case True
        with az have "a = u @ e @ []" by simp
        then show ?thesis by blast
      next
        case wne: False
        show ?thesis
        proof (cases "z = []")
          case True
          with az aw have "b = [] @ e @ v" by simp
          then show ?thesis by blast
        next
          case False
          with wne az aw have "e = z @ w \<and> z \<noteq> [] \<and> w \<noteq> [] \<and> a = u @ z \<and> b = w @ v" by simp
          then show ?thesis by blast
        qed
      qed
    next
      assume "a @ z = u \<and> w = z @ e"
      with aw have "b = z @ e @ v" by simp
      then show ?thesis by blast
    qed
  qed
qed

lemma start_text_snoc: "start_text = py ''<<<<<<< HEAD'' @ [10]"
  by (simp add: start_text_def py_def)

lemma start_text_split:
  assumes "start_text = e1 @ e2" "e1 \<noteq> []" "e2 \<noteq> []"
  shows "last e1 \<noteq> 10" and "hd e2 = 10 \<Longrightarrow> e2 = [10]"
proof -
  from assms(3) obtain e2' x where e2: "e2 = e2' @ [x]" by (metis rev_exhaust)
  with assms(1) have "py ''<<<<<<< HEAD'' @ [10] = (e1 @ e2') @ [x]" by (simp add: start_text_snoc)
  then have n: "py ''<<<<<<< HEAD'' = e1 @ e2'" and x: "x = 10" by simp_all
  have no: "10 \<notin> set (py ''<<<<<<< HEAD'')" by (simp add: py_def)
  from n assms(2) have "last e1 \<in> set (py ''<<<<<<< HEAD'')" by simp
  with no show "last e1 \<noteq> 10" by metis
  show "e2 = [10]" if "hd e2 = 10"
  proof (cases "e2' = []")
    case True
    with e2 x show ?thesis by simp
  next
    case False
    with that e2 have "hd e2' = 10" by simp
    with False n have "10 \<in> set (py ''<<<<<<< HEAD'')" by (metis Un_iff hd_in_set set_append)
    with no show ?thesis by simp
  qed
qed

lemma no_start_after_line:
  assumes "\<not> contains start_text a" "\<not> contains start_text b" "a = [] \<or> last a = 10"
  shows "\<not> contains start_text (a @ b)"
proof
  assume "contains start_text (a @ b)"
  then obtain u v where "a @ b = u @ start_text @ v" unfolding contains_iff by blast
  from occurrence_cases[OF this] assms(1,2) obtain e1 e2 where
    e: "start_text = e1 @ e2" "e1 \<noteq> []" "e2 \<noteq> []" "a = u @ e1" "b = e2 @ v"
    unfolding contains_iff by blast
  from e(2,4) have "a \<noteq> []" "last a = last e1" by simp_all
  with assms(3) start_text_split(1)[OF e(1,2,3)] show False by simp
qed

lemma no_start_before_line:
  assumes "\<not> contains start_text (a @ [10])" "\<not> contains start_text b" "b = [] \<or> hd b = 10"
  shows "\<not> contains start_text (a @ b)"
proof
  assume c: "contains start_text (a @ b)"
  then obtain u v where uv: "a @ b = u @ start_text @ v" unfolding contains_iff by blast
  have na: "\<not> contains start_text a"
  proof
    assume "contains start_text a"
    then obtain x y where "a = x @ start_text @ y" unfolding contains_iff by blast
    then have "a @ [10] = x @ start_text @ (y @ [10])" by simp
    with assms(1) show False unfolding contains_iff by blast
  qed
  from occurrence_cases[OF uv] na assms(2) obtain e1 e2 where
    e: "start_text = e1 @ e2" "e1 \<noteq> []" "e2 \<noteq> []" "a = u @ e1" "b = e2 @ v"
    unfolding contains_iff by blast
  from e(3,5) have "b \<noteq> []" "hd b = hd e2" by simp_all
  with assms(3) have "hd e2 = 10" by simp
  from start_text_split(2)[OF e(1,2,3) this] have "e2 = [10]" .
  with e(1,4) have "a @ [10] = u @ start_text @ []" by simp
  with assms(1) show False unfolding contains_iff by blast
qed

subsection \<open>Text that no match begins in\<close>

lemma re_sub_skip:
  assumes "\<And>a b. x = a @ b \<Longrightarrow> b \<noteq> [] \<Longrightarrow> rmatch p (b @ y) = None"
  shows "re_sub p repl (x @ y) = x @ re_sub p repl y"
  using assms
proof (induction x)
  case Nil
  show ?case by simp
next
  case (Cons c x)
  have "rmatch p ((c # x) @ y) = None" by (rule Cons.prems[of "[]"]) simp_all
  moreover have "re_sub p repl (x @ y) = x @ re_sub p repl y"
  proof (rule Cons.IH)
    fix a b assume "x = a @ b" "b \<noteq> []"
    then show "rmatch p (b @ y) = None" using Cons.prems[of "c # a" b] by simp
  qed
  ultimately show ?case by (simp add: re_sub_None)
qed

lemma no_start_no_match:
  assumes "\<not> prefix start_text s"
  shows "rmatch general_conflict_pattern s = None" and "rmatch vi_conflict_pattern s = None"
  using assms by (simp_all add: general_conflict_pattern_eq vi_conflict_pattern_eq)

lemma prefix_start_in_front:
  assumes "x = a @ b" "b \<noteq> []" "prefix start_text (b @ y)"
  shows "contains start_text (x @ take (length start_text - 1) y)"
proof -
  from assms(3) have "start_text = take (length start_text) (b @ y)"
    by (metis append_eq_conv_conj prefix_def)
  also have "\<dots> = take (length start_text) b @ take (length start_text - length b) y"
    by simp
  finally have st: "start_text = take (length start_text) b @ take (length start_text - length b) y" .
  from assms(2) have "0 < length b" by simp
  then have "length start_text - length b \<le> length start_text - 1" by arith
  then have "take (length start_text - length b) y
      = take (length start_text - length b) (take (length start_text - 1) y)"
    by (simp add: min_def)
  with st have "start_text = take (length start_text) (b @ take (length start_text - 1) y)"
    by simp
  then have "prefix start_text (b @ take (length start_text - 1) y)" by (metis take_is_prefix)
  then obtain z where "b @ take (length start_text - 1) y = start_text @ z" by (auto simp: prefix_def)
  with assms(1) have "x @ take (length start_text - 1) y = a @ start_text @ z" by simp
  then show ?thesis by (rule containsI)
qed

lemma skip_no_start:
  assumes "\<not> contains start_text (x @ take (length start_text - 1) y)"
  shows "resolveGeneric (x @ y) = x @ resolveGeneric y"
    and "resolveSpecialCase (x @ y) = x @ resolveSpecialCase y"
proof -
  have np: "\<not> prefix start_text (b @ y)" if "x = a @ b" "b \<noteq> []" for a b
    using prefix_start_in_front[OF that] assms by blast
  show "resolveGeneric (x @ y) = x @ resolveGeneric y"
    unfolding resolveGeneric_def by (rule re_sub_skip) (use np no_start_no_match in blast)
  show "resolveSpecialCase (x @ y) = x @ resolveSpecialCase y"
    unfolding resolveSpecialCase_def by (rule re_sub_skip) (use np no_start_no_match in blast)
qed

subsection \<open>Text in which every start text begins a whole span\<close>

lemma start_text_no_overlap:
  assumes "prefix start_text (x @ t)" "\<not> prefix start_text x" "x \<noteq> []" "prefix start_text t"
  shows False
proof -
  from assms(1,2) obtain us where us: "start_text = x @ us" "prefix us t"
    unfolding prefix_append by blast
  from us(1) assms(2) have usne: "us \<noteq> []" by auto
  from us(1) have "length start_text = length x + length us" by (metis length_append)
  moreover from assms(3) have "0 < length x" by simp
  ultimately have "length us < length start_text" by arith
  note lt = this
  from us(2) assms(4) have "prefix us start_text \<or> prefix start_text us"
    by (rule prefix_same_cases)
  with lt have "prefix us start_text" "us \<noteq> start_text" by (auto dest: prefix_length_le)
  then obtain w where w: "start_text = us @ w" "w \<noteq> []"
    by (metis append_Nil2 prefix_def)
  from start_text_split(1)[OF w(1) usne w(2)] have "last us \<noteq> 10" .
  moreover from us(1) usne have "last us = last start_text" by (metis last_appendR)
  ultimately show False by (simp add: start_text_eq)
qed

lemma resolveGeneric_closed_prefix:
  assumes T: "T = [] \<or> prefix start_text T"
  shows "(\<And>a b. before = a @ start_text @ b \<Longrightarrow>
      \<exists>ours theirs r. b = ours @ sep_text @ theirs @ end_text @ r) \<Longrightarrow>
    resolveGeneric (before @ T) = resolveGeneric before @ resolveGeneric T"
proof (induction before rule: length_induct)
  case (1 before)
  note closed = "1.prems"
  show ?case
  proof (cases before)
    case Nil
    then show ?thesis by (simp add: resolveGeneric_Nil)
  next
    case (Cons c cs)
    show ?thesis
    proof (cases "rmatch general_conflict_pattern before")
      case None
      have np: "\<not> prefix start_text before"
      proof
        assume "prefix start_text before"
        then obtain b where b: "before = [] @ start_text @ b" by (auto simp: prefix_def)
        from closed[OF this] obtain ours theirs r where "b = ours @ sep_text @ theirs @ end_text @ r"
          by blast
        with b general_matchI[of ours theirs r] None show False by simp
      qed
      have "\<not> prefix start_text (before @ T)"
      proof
        assume p: "prefix start_text (before @ T)"
        show False
        proof (cases "T = []")
          case True
          with p np show False by simp
        next
          case False
          with T have "prefix start_text T" by simp
          from start_text_no_overlap[OF p np _ this] Cons show False by simp
        qed
      qed
      then have "rmatch general_conflict_pattern (c # cs @ T) = None"
        using no_start_no_match(1) Cons by simp
      then have 1: "resolveGeneric (before @ T) = c # resolveGeneric (cs @ T)"
        using Cons by (simp add: resolveGeneric_def re_sub_None)
      from None Cons have 2: "resolveGeneric before = c # resolveGeneric cs"
        by (simp add: resolveGeneric_def re_sub_None)
      have "resolveGeneric (cs @ T) = resolveGeneric cs @ resolveGeneric T"
      proof (rule "1.IH"[rule_format])
        show "length cs < length before" using Cons by simp
      next
        fix a b assume "cs = a @ start_text @ b"
        with Cons have "before = (c # a) @ start_text @ b" by simp
        from closed[OF this] show "\<exists>ours theirs r. b = ours @ sep_text @ theirs @ end_text @ r" .
      qed
      with 1 2 show ?thesis by simp
    next
      case (Some m)
      obtain gs r where "m = (gs, r)" by (cases m)
      with Some have mr: "rmatch general_conflict_pattern before = Some (gs, r)" by simp
      from general_match_shortest[OF mr] obtain ours theirs where
        s: "before = start_text @ ours @ sep_text @ theirs @ end_text @ r"
        and no1: "\<not> contains sep_text (ours @ butlast sep_text)"
        and no2: "\<not> contains end_text (theirs @ butlast end_text)" by blast
      have "resolveGeneric (r @ T) = resolveGeneric r @ resolveGeneric T"
      proof (rule "1.IH"[rule_format])
        show "length r < length before" using s texts_nonempty by simp
      next
        fix a b assume "r = a @ start_text @ b"
        with s have "before = (start_text @ ours @ sep_text @ theirs @ end_text @ a) @ start_text @ b"
          by simp
        from closed[OF this] show "\<exists>ours theirs r. b = ours @ sep_text @ theirs @ end_text @ r" .
      qed
      moreover have "resolveGeneric (before @ T) = theirs @ resolveGeneric (r @ T)"
        unfolding s using resolveGeneric_region[OF no1 no2, of "r @ T"] by simp
      moreover have "resolveGeneric before = theirs @ resolveGeneric r"
        unfolding s by (rule resolveGeneric_region[OF no1 no2])
      ultimately show ?thesis by simp
    qed
  qed
qed

lemma closed_by_matches:
  assumes "list_all (\<lambda>x. \<not> prefix start_text x \<or> rmatch general_conflict_pattern x \<noteq> None)
      (suffixes before)"
  shows "\<forall>a b. before = a @ start_text @ b \<longrightarrow>
      (\<exists>ours theirs r. b = ours @ sep_text @ theirs @ end_text @ r)"
proof (intro allI impI)
  fix a b assume b: "before = a @ start_text @ b"
  then have "suffix (start_text @ b) before" by (simp add: suffix_def)
  then have "start_text @ b \<in> set (suffixes before)" by simp
  with assms have "rmatch general_conflict_pattern (start_text @ b) \<noteq> None"
    by (auto simp: list_all_iff)
  then obtain gs r where "rmatch general_conflict_pattern (start_text @ b) = Some (gs, r)" by auto
  from general_matchD[OF this] show "\<exists>ours theirs r. b = ours @ sep_text @ theirs @ end_text @ r"
    by auto
qed

subsection \<open>Contents made of plain text and regions\<close>

lemma starts_line_iff: "starts_line s \<longleftrightarrow> s = [] \<or> hd s = 10"
  by (cases s) (simp_all add: starts_line_def)

lemma ends_line_iff: "ends_line s \<longleftrightarrow> s = [] \<or> last s = 10"
  by (cases s rule: rev_cases) (simp_all add: ends_line_def starts_line_def)

lemma prefix_before_char:
  assumes "prefix e (x @ c # y)" "c \<notin> set e"
  shows "prefix e x"
proof -
  from assms(1) consider "prefix e x" | us where "e = x @ us" "prefix us (c # y)"
    unfolding prefix_append by blast
  then show ?thesis
  proof cases
    case 1
    then show ?thesis .
  next
    case 2
    show ?thesis
    proof (cases us)
      case Nil
      with 2 show ?thesis by simp
    next
      case (Cons u us')
      with 2 have "u = c" by simp
      with 2 Cons assms(2) show ?thesis by simp
    qed
  qed
qed

lemma end_text_Cons: "end_text = 10 # tl end_text" "10 \<notin> set (tl end_text)"
  by (simp_all add: end_text_eq)

lemma no_label_shortest:
  assumes "\<not> contains (tl end_text) t"
  shows "\<not> contains end_text (t @ butlast end_text)"
proof
  assume "contains end_text (t @ butlast end_text)"
  then obtain a b where ab: "t @ butlast end_text = a @ end_text @ b" unfolding contains_iff by blast
  then have "length (t @ butlast end_text) = length (a @ end_text @ b)" by simp
  then have la: "length a < length t" by (simp add: end_text_eq)
  from ab have "t @ butlast end_text = a @ (end_text @ b)" by simp
  then obtain w where w: "t = a @ w \<and> w @ butlast end_text = end_text @ b
      \<or> t @ w = a \<and> butlast end_text = w @ end_text @ b"
    unfolding append_eq_append_conv2 by blast
  with la have t: "t = a @ w" and w': "w @ butlast end_text = end_text @ b" by auto
  from t la obtain c w1 where w1: "w = c # w1" by (cases w) auto
  with w' have c: "c = 10" and "w1 @ butlast end_text = tl end_text @ b"
    by (simp_all add: end_text_eq)
  then have "prefix (tl end_text) (w1 @ 10 # tl (butlast end_text))"
    by (simp add: end_text_eq prefix_def)
  from prefix_before_char[OF this end_text_Cons(2)] obtain z where "w1 = tl end_text @ z"
    by (auto simp: prefix_def)
  with t w1 have "t = (a @ [c]) @ tl end_text @ z" by simp
  then have "contains (tl end_text) t" by (rule containsI)
  with assms show False by simp
qed

lemma contains_skip2:
  assumes "d \<notin> set x" "x \<noteq> []" "contains (c # d # q) (x @ y)"
  shows "contains (c # d # q) (last x # y)"
  using assms
proof (induction x)
  case Nil
  then show ?case by simp
next
  case (Cons a x)
  show ?case
  proof (cases "x = []")
    case True
    with Cons.prems show ?thesis by simp
  next
    case False
    then obtain b x' where x: "x = b # x'" by (cases x) auto
    have np: "\<not> prefix (c # d # q) (a # x @ y)"
    proof
      assume "prefix (c # d # q) (a # x @ y)"
      with x have "d = b" by simp
      with Cons.prems(1) x show False by simp
    qed
    from Cons.prems(3) have "prefix (c # d # q) (a # x @ y) \<or> contains (c # d # q) (x @ y)"
      by (simp only: append_Cons contains.simps)
    with np have "contains (c # d # q) (x @ y)" by blast
    with Cons.IH False Cons.prems(1) have "contains (c # d # q) (last x # y)" by simp
    with False show ?thesis by simp
  qed
qed

lemma vi_text_parts:
  "vi_text = py ''const vi: typeof import('vitest').vi'' @ sep_text @ tl end_text"
  by (simp add: vi_text_def sep_text_def end_text_def py_def)

lemma decl_shortest:
  assumes "list_all isspace ws"
  shows "\<not> contains sep_text ((ws @ py ''const vi: typeof import('vitest').vi'') @ butlast sep_text)"
proof
  let ?D = "py ''const vi: typeof import('vitest').vi''"
  assume c: "contains sep_text ((ws @ ?D) @ butlast sep_text)"
  have "\<not> isspace 61" by (simp add: isspace_def)
  with assms have "61 \<notin> set ws" by (auto simp: list_all_iff)
  moreover have "61 \<notin> set ?D" by (simp add: py_def)
  ultimately have no: "61 \<notin> set (ws @ ?D)" by simp
  have ne: "ws @ ?D \<noteq> []" by (simp add: py_def)
  have "contains (10 # 61 # [61, 61, 61, 61, 61, 61, 10]) ((ws @ ?D) @ butlast sep_text)"
    using c by (simp add: sep_text_eq)
  from contains_skip2[OF no ne this]
  have "contains sep_text (last (ws @ ?D) # butlast sep_text)" by (simp add: sep_text_eq)
  then show False by (simp add: sep_text_eq py_def)
qed

lemma contains_length: "contains e s \<Longrightarrow> length e \<le> length s"
  by (auto simp: contains_iff)

lemma contains_append_right: "contains e b \<Longrightarrow> contains e (a @ b)"
  by (rule contains_suffix[of b]) (simp_all add: suffix_def)

lemma vi_no_match_in_general:
  assumes o: "\<not> contains sep_text (ours @ butlast sep_text)"
    and t: "\<not> contains (tl end_text) theirs"
    and b: "suffix b (start_text @ ours)" "b \<noteq> []"
  shows "rmatch vi_conflict_pattern (b @ sep_text @ theirs @ end_text @ y) = None"
  unfolding vi_match_None_iff
proof
  let ?D = "py ''const vi: typeof import('vitest').vi''"
  assume "\<exists>ws r. list_all isspace ws \<and> b @ sep_text @ theirs @ end_text @ y = start_text @ ws @ vi_text @ r"
  then obtain ws r where ws: "list_all isspace ws"
    and eq: "b @ sep_text @ theirs @ end_text @ y = start_text @ ws @ vi_text @ r" by blast
  show False
  proof (cases "prefix start_text b")
    case True
    then obtain o' where o': "b = start_text @ o'" by (auto simp: prefix_def)
    have so: "suffix o' ours"
    proof -
      from b(1) consider "suffix b ours" | s' where "suffix s' start_text" "b = s' @ ours"
        unfolding suffix_append by blast
      then show ?thesis
      proof cases
        case 1
        with o' show ?thesis by (metis suffix_appendD)
      next
        case 2
        show ?thesis
        proof (cases "s' = start_text")
          case True
          with 2 o' show ?thesis by simp
        next
          case ns: False
          show ?thesis
          proof (cases "s' = []")
            case True
            with 2 have "suffix b ours" by simp
            with o' show ?thesis by (metis suffix_appendD)
          next
            case False
            from 2(1) ns have lt: "length s' < length start_text"
              by (metis suffix_length_le le_neq_implies_less suffix_def append_eq_append_conv append_Nil)
            from True 2(2) have "prefix start_text (s' @ ours)" by simp
            with lt obtain us where us: "start_text = s' @ us"
              unfolding prefix_append by (auto dest: prefix_length_le)
            with lt have "us \<noteq> []" by auto
            from start_text_split(1)[OF us False this] have "last s' \<noteq> 10" .
            moreover from 2(1) False have "last s' = last start_text"
              by (metis last_appendR suffix_def)
            ultimately show ?thesis by (simp add: start_text_eq)
          qed
        qed
      qed
    qed
    have no': "\<not> contains sep_text (o' @ butlast sep_text)"
    proof
      assume c: "contains sep_text (o' @ butlast sep_text)"
      from so have "suffix (o' @ butlast sep_text) (ours @ butlast sep_text)" by simp
      from contains_suffix[OF this c] o show False by simp
    qed
    from eq o' have "o' @ sep_text @ (theirs @ end_text @ y) = (ws @ ?D) @ sep_text @ (tl end_text @ r)"
      by (simp add: vi_text_parts)
    from first_occurrence_unique[OF this no' decl_shortest[OF ws] texts_nonempty(2)]
    have "theirs @ end_text @ y = tl end_text @ r" by simp
    then have "prefix (tl end_text) (theirs @ 10 # (tl end_text @ y))"
      by (simp add: prefix_def end_text_eq)
    from prefix_before_char[OF this end_text_Cons(2)] obtain z where "theirs = [] @ tl end_text @ z"
      by (auto simp: prefix_def)
    then have "contains (tl end_text) theirs" by (rule containsI)
    with t show False by simp
  next
    case False
    from eq have "prefix start_text (b @ sep_text @ theirs @ end_text @ y)" by (simp add: prefix_def)
    with False obtain us where us: "start_text = b @ us" "prefix us (sep_text @ theirs @ end_text @ y)"
      unfolding prefix_append by blast
    from us(1) False have une: "us \<noteq> []" by auto
    with us(2) have "hd us = 10" by (cases us) (simp_all add: sep_text_eq)
    from start_text_split(2)[OF us(1) b(2) une this] have u: "us = [10]" .
    have "b @ sep_text @ theirs @ end_text @ y = (b @ [10]) @ (tl sep_text @ theirs @ end_text @ y)"
      by (simp add: sep_text_eq)
    also have "b @ [10] = start_text" using us(1) u by simp
    finally have "start_text @ (tl sep_text @ theirs @ end_text @ y) = start_text @ (ws @ vi_text @ r)"
      using eq by simp
    then have "tl sep_text @ theirs @ end_text @ y = ws @ vi_text @ r"
      by (simp only: same_append_eq)
    then have "61 # (tl (tl sep_text) @ theirs @ end_text @ y) = ws @ vi_text @ r"
      by (simp add: sep_text_eq)
    then have h: "hd (ws @ vi_text @ r) = 61" by (metis list.sel(1))
    show False
    proof (cases ws)
      case Nil
      with h show False by (simp add: vi_text_def py_def)
    next
      case (Cons w ws')
      with h ws show False by (simp add: isspace_def)
    qed
  qed
qed

lemma general_tail_no_start:
  assumes t: "\<not> contains start_text (theirs @ [10])" and y: "starts_line y"
  shows "\<not> contains start_text ((sep_text @ theirs @ end_text) @ take (length start_text - 1) y)"
proof -
  let ?y = "take (length start_text - 1) y"
  have 1: "\<not> contains start_text ?y"
  proof
    assume "contains start_text ?y"
    from contains_length[OF this] show False by (simp add: start_text_eq)
  qed
  from y have 2: "?y = [] \<or> hd ?y = 10"
    by (cases y) (simp_all add: starts_line_def start_text_eq)
  have "\<not> contains start_text (end_text @ [10])" by (simp add: start_text_eq end_text_eq)
  from no_start_before_line[OF this 1 2] have 3: "\<not> contains start_text (end_text @ ?y)" .
  have "end_text @ ?y = [] \<or> hd (end_text @ ?y) = 10" by (simp add: end_text_eq)
  from no_start_before_line[OF t 3 this] have 4: "\<not> contains start_text (theirs @ end_text @ ?y)" .
  have "\<not> contains start_text sep_text" "sep_text = [] \<or> last sep_text = 10"
    by (simp_all add: start_text_eq sep_text_eq)
  from no_start_after_line[OF this(1) 4 this(2)] show ?thesis by simp
qed

lemma resolveSpecialCase_general_region:
  assumes "region_ok (Generic ours theirs)" "starts_line y"
  shows "resolveSpecialCase (region_text (Generic ours theirs) @ y)
    = region_text (Generic ours theirs) @ resolveSpecialCase y"
  unfolding resolveSpecialCase_def
proof (rule re_sub_skip)
  fix a b assume ab: "region_text (Generic ours theirs) = a @ b" and bne: "b \<noteq> []"
  let ?Z = "sep_text @ theirs @ end_text"
  from assms(1) have o: "\<not> contains sep_text (ours @ butlast sep_text)"
    and t1: "\<not> contains start_text (theirs @ [10])" and t2: "\<not> contains (tl end_text) theirs"
    by simp_all
  from ab have "suffix b ((start_text @ ours) @ ?Z)" by (simp add: suffix_def)
  then consider "suffix b ?Z" | b' where "suffix b' (start_text @ ours)" "b = b' @ ?Z"
    unfolding suffix_append by blast
  then show "rmatch vi_conflict_pattern (b @ y) = None"
  proof cases
    case 1
    then obtain a' where "?Z = a' @ b" by (auto simp: suffix_def)
    from prefix_start_in_front[OF this bne] general_tail_no_start[OF t1 assms(2)]
    have "\<not> prefix start_text (b @ y)" by blast
    then show ?thesis by (rule no_start_no_match)
  next
    case 2
    show ?thesis
    proof (cases "b' = []")
      case True
      with 2 have "?Z = [] @ b" by simp
      from prefix_start_in_front[OF this bne] general_tail_no_start[OF t1 assms(2)]
      have "\<not> prefix start_text (b @ y)" by blast
      then show ?thesis by (rule no_start_no_match)
    next
      case False
      from vi_no_match_in_general[OF o t2 2(1) False, of y] 2(2) show ?thesis by simp
    qed
  qed
qed

lemma no_start_marker_only: "\<not> contains start_text (py ''<<<<<<< HEAD'')"
  by (simp add: start_text_eq py_def)

lemma plain_before_region:
  assumes "\<not> contains start_text q" "ends_line q"
  shows "\<not> contains start_text (q @ take (length start_text - 1) (start_text @ z))"
proof -
  have "take (length start_text - 1) (start_text @ z) = py ''<<<<<<< HEAD''"
    by (simp add: start_text_eq py_def)
  moreover from assms(2) have "q = [] \<or> last q = 10" by (simp add: ends_line_iff)
  ultimately show ?thesis
    using no_start_after_line[OF assms(1) no_start_marker_only] by simp
qed

lemma plain_join:
  assumes "\<not> contains start_text q" "ends_line q" "\<not> contains start_text p" "ends_line p"
  shows "\<not> contains start_text (q @ p)" and "ends_line (q @ p)"
proof -
  from assms(2) have "q = [] \<or> last q = 10" by (simp add: ends_line_iff)
  from no_start_after_line[OF assms(1,3) this] show "\<not> contains start_text (q @ p)" .
  from assms(2,4) show "ends_line (q @ p)" by (cases "p = []") (simp_all add: ends_line_iff)
qed

lemma resolveSpecialCase_doc:
  "doc_ok d \<Longrightarrow> \<not> contains start_text q \<Longrightarrow> ends_line q \<Longrightarrow>
     resolveSpecialCase (q @ render d) = q @ without_special d"
proof (induction d arbitrary: q)
  case (Plain p)
  from Plain.prems have "q = [] \<or> last q = 10" "\<not> contains start_text p"
    by (simp_all add: ends_line_iff)
  from no_start_after_line[OF Plain.prems(2) this(2,1)] have "\<not> contains start_text (q @ p)" .
  from no_start_unchanged(1)[OF this] show ?case by simp
next
  case (Region p r d)
  from Region.prems(1) have p: "\<not> contains start_text p" "ends_line p" and r: "region_ok r"
    and y: "starts_line (render d)" and d: "doc_ok d" by simp_all
  note qp = plain_join[OF Region.prems(2,3) p]
  have nil: "\<not> contains start_text []" "ends_line []" by (simp_all add: ends_line_iff texts_nonempty)
  from Region.IH[OF d nil] have IH: "resolveSpecialCase (render d) = without_special d" by simp
  show ?case
  proof (cases r)
    case (Generic ours theirs)
    have "resolveSpecialCase ((q @ p) @ start_text @ (ours @ sep_text @ theirs @ end_text @ render d))
        = (q @ p) @ resolveSpecialCase (start_text @ (ours @ sep_text @ theirs @ end_text @ render d))"
      by (rule skip_no_start(2)[OF plain_before_region[OF qp]])
    moreover have "resolveSpecialCase (region_text (Generic ours theirs) @ render d)
        = region_text (Generic ours theirs) @ resolveSpecialCase (render d)"
      using r y Generic by (intro resolveSpecialCase_general_region) simp_all
    ultimately show ?thesis using Generic IH by simp
  next
    case (Special ws)
    have "resolveSpecialCase ((q @ p) @ start_text @ (ws @ vi_text @ render d))
        = (q @ p) @ resolveSpecialCase (start_text @ (ws @ vi_text @ render d))"
      by (rule skip_no_start(2)[OF plain_before_region[OF qp]])
    moreover from r Special have "list_all isspace ws" by simp
    from resolveSpecialCase_region[OF this, of "render d"]
    have "resolveSpecialCase (start_text @ ws @ vi_text @ render d) = resolveSpecialCase (render d)" .
    ultimately show ?thesis using Special IH by simp
  qed
qed

lemma resolveGeneric_doc:
  "doc_ok d \<Longrightarrow> \<not> contains start_text q \<Longrightarrow> ends_line q \<Longrightarrow>
     resolveGeneric (q @ without_special d) = q @ resolved d"
proof (induction d arbitrary: q)
  case (Plain p)
  from Plain.prems have "q = [] \<or> last q = 10" "\<not> contains start_text p"
    by (simp_all add: ends_line_iff)
  from no_start_after_line[OF Plain.prems(2) this(2,1)] have "\<not> contains start_text (q @ p)" .
  from no_start_unchanged(2)[OF this] show ?case by simp
next
  case (Region p r d)
  from Region.prems(1) have p: "\<not> contains start_text p" "ends_line p" and r: "region_ok r"
    and d: "doc_ok d" by simp_all
  note qp = plain_join[OF Region.prems(2,3) p]
  show ?case
  proof (cases r)
    case (Generic ours theirs)
    have nil: "\<not> contains start_text []" "ends_line []" by (simp_all add: ends_line_iff texts_nonempty)
    from Region.IH[OF d nil] have IH: "resolveGeneric (without_special d) = resolved d" by simp
    have "resolveGeneric ((q @ p) @ start_text @ (ours @ sep_text @ theirs @ end_text @ without_special d))
        = (q @ p) @ resolveGeneric (start_text @ (ours @ sep_text @ theirs @ end_text @ without_special d))"
      by (rule skip_no_start(1)[OF plain_before_region[OF qp]])
    moreover from r Generic have "\<not> contains sep_text (ours @ butlast sep_text)"
      "\<not> contains end_text (theirs @ butlast end_text)" by (simp_all add: no_label_shortest)
    from resolveGeneric_region[OF this, of "without_special d"]
    have "resolveGeneric (start_text @ ours @ sep_text @ theirs @ end_text @ without_special d)
        = theirs @ resolveGeneric (without_special d)" .
    ultimately show ?thesis using Generic IH by simp
  next
    case (Special ws)
    from Region.IH[OF d qp] Special show ?thesis by simp
  qed
qed

lemma resolved_no_start:
  "doc_ok d \<Longrightarrow> \<not> contains start_text (resolved d) \<and> (starts_line (render d) \<longrightarrow> starts_line (resolved d))"
proof (induction d)
  case (Plain p)
  then show ?case by simp
next
  case (Region p r d)
  from Region.prems have p: "\<not> contains start_text p" "ends_line p" and r: "region_ok r"
    and y: "starts_line (render d)" and d: "doc_ok d" by simp_all
  from Region.IH[OF d] y have rd: "\<not> contains start_text (resolved d)" "starts_line (resolved d)"
    by simp_all
  from rd(2) have rd': "resolved d = [] \<or> hd (resolved d) = 10" by (simp add: starts_line_iff)
  from p(2) have p': "p = [] \<or> last p = 10" by (simp add: ends_line_iff)
  have 1: "\<not> contains start_text (region_resolved r @ resolved d)"
  proof (cases r)
    case (Generic ours theirs)
    with r have "\<not> contains start_text (theirs @ [10])" by simp
    from no_start_before_line[OF this rd(1) rd'] Generic show ?thesis by simp
  next
    case (Special ws)
    with rd(1) show ?thesis by simp
  qed
  from no_start_after_line[OF p(1) 1 p'] have 2: "\<not> contains start_text (resolved (Region p r d))"
    by simp
  have "starts_line (resolved (Region p r d))" if s: "starts_line (render (Region p r d))"
  proof (cases p)
    case Nil
    with s have "starts_line (region_text r @ render d)" by simp
    then show ?thesis by (cases r) (simp_all add: starts_line_def start_text_eq)
  next
    case (Cons c p')
    with s show ?thesis by (simp add: starts_line_def)
  qed
  with 2 show ?case by blast
qed


section \<open>The two scenarios\<close>

text \<open>
  C6: the content \<open><<<<<<< HEAD / const x = 1 / ======= / const x = 2 / >>>>>>> test/test-failure-analysis\<close>
  with its final newline is turned into \<open>const x = 2\<close> and the newline: the region is replaced by
  its second segment and no marker line remains. Both substitutions in sequence give this,
  and so does the general substitution alone.
\<close>

theorem C6_keep_theirs_scenario:
  "resolve_content (py ''<<<<<<< HEAD\<newline>const x = 1\<newline>=======\<newline>const x = 2\<newline>>>>>>>> test/test-failure-analysis\<newline>'')
     = py ''const x = 2\<newline>''
   \<and> resolveGeneric (py ''<<<<<<< HEAD\<newline>const x = 1\<newline>=======\<newline>const x = 2\<newline>>>>>>>> test/test-failure-analysis\<newline>'')
     = py ''const x = 2\<newline>''"
  by (simp add: eval_simps)

text \<open>
  C3, as stated: the content made of the start marker, the indented declaration of \<open>vi\<close>, the
  separator, the end marker and a final newline is turned into the empty text. It is not:
\<close>

theorem C3_counterexample:
  "resolve_content (py ''<<<<<<< HEAD\<newline>    const vi: typeof import('vitest').vi\<newline>=======\<newline>>>>>>>> test/test-failure-analysis\<newline>'')
     \<noteq> []"
  by (simp add: eval_simps)

text \<open>
  C3, amended: that content is turned into a single newline. The pattern ends with the end
  marker's label, so the newline after the end marker is not part of the match and stays.
\<close>

theorem C3_vi_scenario_leaves_newline:
  "resolve_content (py ''<<<<<<< HEAD\<newline>    const vi: typeof import('vitest').vi\<newline>=======\<newline>>>>>>>> test/test-failure-analysis\<newline>'')
     = py ''\<newline>''"
  by (simp add: eval_simps)


section \<open>Regions with another end label\<close>

text \<open>
  C1, as stated: a well-formed region whose end label is not \<open>test/test-failure-analysis\<close> is
  byte-identical in the output of both substitutions, whatever surrounds it. Here a region
  labelled \<open>some/other-branch\<close> is followed by a region with the expected label: the match that
  begins at the first start marker runs to the end marker of the second region, and the
  first region does not occur in the output.
\<close>

theorem C1_counterexample:
  "resolve_content
     (py ''<<<<<<< HEAD\<newline>a\<newline>=======\<newline>b\<newline>>>>>>>> some/other-branch\<newline>''
      @ py ''<<<<<<< HEAD\<newline>c\<newline>=======\<newline>d\<newline>>>>>>>> test/test-failure-analysis\<newline>'')
     = py ''b\<newline>>>>>>>> some/other-branch\<newline><<<<<<< HEAD\<newline>c\<newline>=======\<newline>d\<newline>''
   \<and> \<not> contains (py ''<<<<<<< HEAD\<newline>a\<newline>=======\<newline>b\<newline>>>>>>>> some/other-branch\<newline>'')
         (py ''b\<newline>>>>>>>> some/other-branch\<newline><<<<<<< HEAD\<newline>c\<newline>=======\<newline>d\<newline>'')"
  by (simp add: eval_simps)

text \<open>
  C1, amended: when the text from a start marker \<open><<<<<<< HEAD\<close> with its newline to the end
  of the content has no occurrence of a newline followed by
  \<open>>>>>>>> test/test-failure-analysis\<close>, that text is byte-identical in the output of both
  substitutions, whatever precedes it: the output is the output for the preceding text,
  followed by that text. So a region with another end label stays as it is, with all that
  follows it, when no later line begins with the expected end marker. The same holds for
  the general substitution alone.
\<close>

theorem C1_other_label_tail_unchanged:
  assumes "\<not> contains end_text (start_text @ t)"
  shows "resolve_content (before @ start_text @ t) = resolve_content before @ start_text @ t
    \<and> resolveGeneric (before @ start_text @ t) = resolveGeneric before @ start_text @ t"
  using resolve_content_tail[OF assms] resolveGeneric_tail[OF assms] by simp

theorem C1_other_label_tail_unchanged_witness:
  "\<not> contains end_text (start_text @ py ''a\<newline>=======\<newline>b\<newline>>>>>>>> some/other-branch\<newline>'')
   \<and> resolve_content
       (py ''<<<<<<< HEAD\<newline>c\<newline>=======\<newline>d\<newline>>>>>>>> test/test-failure-analysis\<newline>''
        @ start_text @ py ''a\<newline>=======\<newline>b\<newline>>>>>>>> some/other-branch\<newline>'')
     = py ''d\<newline>'' @ start_text @ py ''a\<newline>=======\<newline>b\<newline>>>>>>>> some/other-branch\<newline>''"
proof -
  have h: "\<not> contains end_text (start_text @ py ''a\<newline>=======\<newline>b\<newline>>>>>>>> some/other-branch\<newline>'')"
    by (simp add: end_text_eq start_text_eq py_def)
  have "resolve_content (py ''<<<<<<< HEAD\<newline>c\<newline>=======\<newline>d\<newline>>>>>>>> test/test-failure-analysis\<newline>'')
      = py ''d\<newline>''"
    by (simp add: eval_simps)
  with h C1_other_label_tail_unchanged[OF h,
      of "py ''<<<<<<< HEAD\<newline>c\<newline>=======\<newline>d\<newline>>>>>>>> test/test-failure-analysis\<newline>''"]
  show ?thesis by simp
qed


section \<open>Applying the substitutions twice\<close>

text \<open>
  C4, as stated: for every content, applying both substitutions twice gives the same as
  applying them once. Here a region lies inside the second segment of another: the first
  application leaves the inner region whole, and the second application resolves it.
\<close>

theorem C4_counterexample:
  "resolve_content (resolve_content
     (py ''<<<<<<< HEAD\<newline>a\<newline>=======\<newline><<<<<<< HEAD\<newline>b\<newline>=======\<newline>c\<newline>>>>>>>> test/test-failure-analysis\<newline>>>>>>>> test/test-failure-analysis\<newline>''))
   \<noteq> resolve_content
     (py ''<<<<<<< HEAD\<newline>a\<newline>=======\<newline><<<<<<< HEAD\<newline>b\<newline>=======\<newline>c\<newline>>>>>>>> test/test-failure-analysis\<newline>>>>>>>> test/test-failure-analysis\<newline>'')"
proof -
  have 1: "resolve_content
     (py ''<<<<<<< HEAD\<newline>a\<newline>=======\<newline><<<<<<< HEAD\<newline>b\<newline>=======\<newline>c\<newline>>>>>>>> test/test-failure-analysis\<newline>>>>>>>> test/test-failure-analysis\<newline>'')
     = py ''<<<<<<< HEAD\<newline>b\<newline>=======\<newline>c\<newline>>>>>>>> test/test-failure-analysis\<newline>''"
    by (simp add: eval_simps)
  have 2: "resolve_content (py ''<<<<<<< HEAD\<newline>b\<newline>=======\<newline>c\<newline>>>>>>>> test/test-failure-analysis\<newline>'')
     = py ''c\<newline>''"
    by (simp add: eval_simps)
  show ?thesis unfolding 1 unfolding 2 by (simp add: py_def)
qed

text \<open>
  C4, amended: for every content made of plain text and regions that are not nested, with
  markers that are whole lines (\<open>doc_ok\<close>: the plain text has no start text; each start
  marker begins a line and each end marker ends one; a region is a general one, with a
  first segment in which no separator text begins and a second segment that has no start
  marker line and no expected end marker, or the special one, with white space before the
  declaration), the two substitutions give the plain text with every general region
  replaced by its second segment and every special region removed, and applying them
  twice gives the same as applying them once.
\<close>

theorem C4_idempotent_on_flat_content:
  assumes "doc_ok d"
  shows "resolve_content (render d) = resolved d
    \<and> resolve_content (resolve_content (render d)) = resolve_content (render d)"
proof -
  have nil: "\<not> contains start_text []" "ends_line []" by (simp_all add: ends_line_iff texts_nonempty)
  from resolveSpecialCase_doc[OF assms nil] resolveGeneric_doc[OF assms nil]
  have 1: "resolve_content (render d) = resolved d" by (simp add: resolve_content_def)
  from resolved_no_start[OF assms] have "\<not> contains start_text (resolved d)" by simp
  from no_start_unchanged[OF this] have "resolve_content (resolved d) = resolved d"
    by (simp add: resolve_content_def)
  with 1 show ?thesis by simp
qed

theorem C4_idempotent_on_flat_content_witness:
  "doc_ok (Region (py ''a\<newline>'') (Generic (py ''x'') (py ''y''))
       (Region (py ''\<newline>b\<newline>'') (Special (py ''    '')) (Plain (py ''\<newline>c\<newline>''))))
   \<and> resolve_content (render (Region (py ''a\<newline>'') (Generic (py ''x'') (py ''y''))
       (Region (py ''\<newline>b\<newline>'') (Special (py ''    '')) (Plain (py ''\<newline>c\<newline>'')))))
     = py ''a\<newline>y\<newline>b\<newline>\<newline>c\<newline>''
   \<and> resolve_content (py ''a\<newline>y\<newline>b\<newline>\<newline>c\<newline>'') = py ''a\<newline>y\<newline>b\<newline>\<newline>c\<newline>''"
proof -
  let ?d = "Region (py ''a\<newline>'') (Generic (py ''x'') (py ''y''))
       (Region (py ''\<newline>b\<newline>'') (Special (py ''    '')) (Plain (py ''\<newline>c\<newline>'')))"
  have ok: "doc_ok ?d"
    by (simp add: py_def start_text_eq sep_text_eq end_text_eq vi_text_def starts_line_def ends_line_def
        isspace_def)
  have r: "resolved ?d = py ''a\<newline>y\<newline>b\<newline>\<newline>c\<newline>''"
    by (simp add: py_def)
  from C4_idempotent_on_flat_content[OF ok] have a: "resolve_content (render ?d) = resolved ?d"
    and b: "resolve_content (resolve_content (render ?d)) = resolve_content (render ?d)"
    by blast+
  from b have c: "resolve_content (resolved ?d) = resolved ?d" unfolding a .
  from ok a[unfolded r] c[unfolded r] show ?thesis by (intro conjI)
qed


section \<open>The text outside the regions\<close>

text \<open>
  C5, as stated: only text inside a well-formed region is replaced, a region beginning at
  a start marker that is a whole line; all other text is the same before and after. In the
  content below no line is the start marker, so it has no well-formed region, and yet the
  substitutions change it: the patterns are not anchored at the start of a line.
\<close>

theorem C5_counterexample:
  "py ''<<<<<<< HEAD'' \<notin> set (text_lines
     (py ''# <<<<<<< HEAD\<newline>x\<newline>=======\<newline>y\<newline>>>>>>>> test/test-failure-analysis\<newline>''))
   \<and> resolve_content (py ''# <<<<<<< HEAD\<newline>x\<newline>=======\<newline>y\<newline>>>>>>>> test/test-failure-analysis\<newline>'')
     \<noteq> py ''# <<<<<<< HEAD\<newline>x\<newline>=======\<newline>y\<newline>>>>>>>> test/test-failure-analysis\<newline>''"
proof -
  have "resolve_content (py ''# <<<<<<< HEAD\<newline>x\<newline>=======\<newline>y\<newline>>>>>>>> test/test-failure-analysis\<newline>'')
      = py ''# y\<newline>''"
    by (simp add: eval_simps)
  then show ?thesis by (simp add: py_def)
qed

text \<open>
  C5, amended: the first substitution only cuts out spans made of the start text
  \<open><<<<<<< HEAD\<close> with its newline, white space, and the declaration of \<open>vi\<close> with the separator
  and the expected end marker; the second only replaces spans made of the start text, a
  first segment, the separator between two newlines, a second segment and a newline with the
  expected end marker, each by its second segment. The spans are taken from left to right,
  each at the first place where such a span begins; the first segment ends at the first
  separator after the start text and the second segment at the first expected end marker
  after that separator. Every character outside these spans is copied unchanged and in
  order, and nothing else is a result: \<open>rewrites_vi\<close> and \<open>rewrites_general\<close> hold of the
  outputs of the two substitutions and of no other text. The spans are found as texts, not
  as lines: the start text may follow other characters on its line and the end marker's
  label may go on after the expected one.
\<close>

theorem C5_only_matched_spans_replaced:
  "(rewrites_vi s t \<longleftrightarrow> t = resolveSpecialCase s)
   \<and> (rewrites_general s t \<longleftrightarrow> t = resolveGeneric s)"
  using rewrites_vi_unique[of s t] rewrites_vi_resolveSpecialCase[of s]
    rewrites_general_unique[of s t] rewrites_general_resolveGeneric[of s]
  by blast

theorem C5_only_matched_spans_replaced_witness:
  "rewrites_vi
     (py ''# <<<<<<< HEAD\<newline>x\<newline>=======\<newline>y\<newline>>>>>>>> test/test-failure-analysis\<newline>'')
     (py ''# <<<<<<< HEAD\<newline>x\<newline>=======\<newline>y\<newline>>>>>>>> test/test-failure-analysis\<newline>'')
   \<and> rewrites_general
     (py ''# <<<<<<< HEAD\<newline>x\<newline>=======\<newline>y\<newline>>>>>>>> test/test-failure-analysis\<newline>'')
     (py ''# y\<newline>'')"
proof -
  have 1: "resolveSpecialCase (py ''# <<<<<<< HEAD\<newline>x\<newline>=======\<newline>y\<newline>>>>>>>> test/test-failure-analysis\<newline>'')
      = py ''# <<<<<<< HEAD\<newline>x\<newline>=======\<newline>y\<newline>>>>>>>> test/test-failure-analysis\<newline>''"
    by (simp add: eval_simps)
  have 2: "resolveGeneric (py ''# <<<<<<< HEAD\<newline>x\<newline>=======\<newline>y\<newline>>>>>>>> test/test-failure-analysis\<newline>'')
      = py ''# y\<newline>''"
    by (simp add: eval_simps)
  from C5_only_matched_spans_replaced[of
      "py ''# <<<<<<< HEAD\<newline>x\<newline>=======\<newline>y\<newline>>>>>>>> test/test-failure-analysis\<newline>''"
      "py ''# <<<<<<< HEAD\<newline>x\<newline>=======\<newline>y\<newline>>>>>>>> test/test-failure-analysis\<newline>''"]
    C5_only_matched_spans_replaced[of
      "py ''# <<<<<<< HEAD\<newline>x\<newline>=======\<newline>y\<newline>>>>>>>> test/test-failure-analysis\<newline>''"
      "py ''# y\<newline>''"]
  show ?thesis unfolding 1 unfolding 2 by simp
qed


section \<open>Where a start marker is recognised\<close>

text \<open>
  C7, as stated: where \<open><<<<<<< HEAD\<close> follows other characters on its line, no region begins
  and nothing is resolved or deleted from there. In the content below the start text follows
  \<open>echo\<close> on its line, no line is the start marker, and the region that begins there is
  resolved.
\<close>

theorem C7_counterexample:
  "py ''<<<<<<< HEAD'' \<notin> set (text_lines
     (py ''echo <<<<<<< HEAD\<newline>a\<newline>=======\<newline>b\<newline>>>>>>>> test/test-failure-analysis\<newline>''))
   \<and> resolve_content (py ''echo <<<<<<< HEAD\<newline>a\<newline>=======\<newline>b\<newline>>>>>>>> test/test-failure-analysis\<newline>'')
     = py ''echo b\<newline>''"
  by (simp add: eval_simps)

text \<open>
  C7, amended: a start marker is recognised where the text \<open><<<<<<< HEAD\<close> is followed at
  once by a newline, whatever precedes it on its line. For every content without an
  occurrence of \<open><<<<<<< HEAD\<close> followed by a newline, neither substitution changes anything.
\<close>

theorem C7_no_start_text_unchanged:
  assumes "\<not> contains start_text s"
  shows "resolveSpecialCase s = s \<and> resolveGeneric s = s \<and> resolve_content s = s"
  using no_start_unchanged[OF assms] by (simp add: resolve_content_def)

theorem C7_no_start_text_unchanged_witness:
  "\<not> contains start_text (py ''<<<<<<< HEAD (mine)\<newline>a\<newline>=======\<newline>b\<newline>>>>>>>> test/test-failure-analysis\<newline>'')
   \<and> resolve_content (py ''<<<<<<< HEAD (mine)\<newline>a\<newline>=======\<newline>b\<newline>>>>>>>> test/test-failure-analysis\<newline>'')
     = py ''<<<<<<< HEAD (mine)\<newline>a\<newline>=======\<newline>b\<newline>>>>>>>> test/test-failure-analysis\<newline>''"
proof -
  have h: "\<not> contains start_text (py ''<<<<<<< HEAD (mine)\<newline>a\<newline>=======\<newline>b\<newline>>>>>>>> test/test-failure-analysis\<newline>'')"
    by (simp add: start_text_eq py_def)
  from h C7_no_start_text_unchanged[OF h] show ?thesis by simp
qed


section \<open>Regions with an empty segment\<close>

text \<open>
  C10, as stated: a region with the expected end label and an empty segment is left
  unchanged by the general substitution. Here two such regions follow each other, both with
  an empty second segment: the match that begins at the first start marker ends at the end
  marker of the second region, and the first region does not occur in the output.
\<close>

theorem C10_counterexample:
  "resolveGeneric
     (py ''<<<<<<< HEAD\<newline>a\<newline>=======\<newline>>>>>>>> test/test-failure-analysis\<newline>''
      @ py ''<<<<<<< HEAD\<newline>b\<newline>=======\<newline>>>>>>>> test/test-failure-analysis\<newline>'')
     = py ''>>>>>>> test/test-failure-analysis\<newline><<<<<<< HEAD\<newline>b\<newline>=======\<newline>''
   \<and> \<not> contains (py ''<<<<<<< HEAD\<newline>a\<newline>=======\<newline>>>>>>>> test/test-failure-analysis\<newline>'')
         (py ''>>>>>>> test/test-failure-analysis\<newline><<<<<<< HEAD\<newline>b\<newline>=======\<newline>'')"
  by (simp add: eval_simps)

text \<open>
  C10, amended: the pattern wants a newline of its own before the separator and before the
  end marker, so a region with an empty segment is no match by itself. Let every start text
  in the text before the region be followed, within that text, by a separator and then an
  expected end marker (as it is when there is no start text before the region, or only
  whole regions). Then the general substitution leaves a region whose first segment is
  empty unchanged, with all that follows it, when no separator line follows the region's
  separator; and it leaves a region with the expected end label whose second segment is
  empty unchanged, with all that follows it, when no separator begins inside the first
  segment and no newline with the expected end marker occurs after the region. The output
  is the output for the text before the region, followed by the region and the rest.
\<close>

theorem C10_empty_segment_region_unchanged:
  assumes "\<forall>a b. before = a @ start_text @ b \<longrightarrow>
      (\<exists>ours theirs r. b = ours @ sep_text @ theirs @ end_text @ r)"
  shows "(\<not> contains sep_text (py ''\<newline>'' @ rest) \<longrightarrow>
      resolveGeneric (before @ start_text @ py ''=======\<newline>'' @ rest)
        = resolveGeneric before @ start_text @ py ''=======\<newline>'' @ rest)
   \<and> (\<not> contains sep_text (ours @ py ''\<newline>======='') \<and> \<not> contains end_text post \<longrightarrow>
      resolveGeneric (before @ start_text @ ours @ sep_text @ py ''>>>>>>> test/test-failure-analysis'' @ post)
        = resolveGeneric before @ start_text @ ours @ sep_text @ py ''>>>>>>> test/test-failure-analysis'' @ post)"
proof -
  have c: "resolveGeneric (before @ start_text @ t) = resolveGeneric before @ resolveGeneric (start_text @ t)" for t
    by (rule resolveGeneric_closed_prefix) (use assms in simp_all)
  show ?thesis
    using c[of "py ''=======\<newline>'' @ rest"] empty_ours_unchanged[of rest]
      c[of "ours @ sep_text @ py ''>>>>>>> test/test-failure-analysis'' @ post"]
      empty_theirs_unchanged[of ours post]
    by simp
qed

theorem C10_empty_segment_region_unchanged_witness:
  "resolveGeneric
     (py ''import x\<newline><<<<<<< HEAD\<newline>u\<newline>=======\<newline>v\<newline>>>>>>>> test/test-failure-analysis\<newline>''
      @ start_text @ py ''=======\<newline>'' @ py ''b\<newline>>>>>>>> test/test-failure-analysis\<newline>'')
     = py ''import x\<newline>v\<newline>'' @ start_text @ py ''=======\<newline>'' @ py ''b\<newline>>>>>>>> test/test-failure-analysis\<newline>''
   \<and> resolveGeneric
     (py ''import x\<newline><<<<<<< HEAD\<newline>u\<newline>=======\<newline>v\<newline>>>>>>>> test/test-failure-analysis\<newline>''
      @ start_text @ py ''a'' @ sep_text @ py ''>>>>>>> test/test-failure-analysis'' @ py ''\<newline>'')
     = py ''import x\<newline>v\<newline>'' @ start_text @ py ''a'' @ sep_text @ py ''>>>>>>> test/test-failure-analysis'' @ py ''\<newline>''"
proof -
  let ?before = "py ''import x\<newline><<<<<<< HEAD\<newline>u\<newline>=======\<newline>v\<newline>>>>>>>> test/test-failure-analysis\<newline>''"
  have "list_all (\<lambda>x. \<not> prefix start_text x \<or> rmatch general_conflict_pattern x \<noteq> None)
      (suffixes ?before)"
    by (simp add: py_def start_text_eq general_conflict_pattern_def)
  then have closed: "\<forall>a b. ?before = a @ start_text @ b \<longrightarrow>
      (\<exists>ours theirs r. b = ours @ sep_text @ theirs @ end_text @ r)"
    by (rule closed_by_matches)
  have g: "resolveGeneric ?before = py ''import x\<newline>v\<newline>''"
    by (simp add: eval_simps)
  have h1: "\<not> contains sep_text (py ''\<newline>'' @ py ''b\<newline>>>>>>>> test/test-failure-analysis\<newline>'')"
    by (simp add: sep_text_eq py_def)
  have h2: "\<not> contains sep_text (py ''a'' @ py ''\<newline>======='')"
    by (simp add: sep_text_eq py_def)
  have h3: "\<not> contains end_text (py ''\<newline>'')"
    by (simp add: end_text_eq py_def)
  from C10_empty_segment_region_unchanged[OF closed,
      of "py ''b\<newline>>>>>>>> test/test-failure-analysis\<newline>''" "py ''a''" "py ''\<newline>''"] h1 h2 h3
  show ?thesis unfolding g by blast
qed


section \<open>Files without a start marker\<close>

text \<open>
  C2, as stated: for a file whose content has no occurrence of \<open><<<<<<< HEAD\<close>, the outcome
  is \<open>no-conflict-found\<close> and the file is not written. \<open>resolve_conflicts\<close> of
  \<open>resolve_conflicts.py\<close> has no such check: on the file below it writes the file and
  prints \<open>Resolved conflicts in\<close>.
\<close>

theorem C2_counterexample:
  "\<not> contains (py ''<<<<<<< HEAD'') (py ''hello\<newline>'')
   \<and> map_sum id (\<lambda>w'. (writes w', stdout w'))
       (resolve_conflicts (py ''a.ts'')
          \<lparr>files = Map.empty(py ''a.ts'' \<mapsto> File True True (py ''hello\<newline>'')), writes = [], stdout = []\<rparr>)
     = Inr ([py ''a.ts''], [Resolved (py ''a.ts'')])"
  by (simp add: resolve_conflicts_def read_file_def write_file_def print_def eval_simps)

text \<open>
  C2, amended: for a file that can be read and whose content has no occurrence of
  \<open><<<<<<< HEAD\<close>, \<open>resolve_generic_conflicts\<close> (of \<open>resolve_remaining.py\<close>) prints
  \<open>No conflicts found in\<close> and changes nothing else: no file is written. \<open>resolve_conflicts\<close>
  (of \<open>resolve_conflicts.py\<close>) writes the content back as it was read and prints
  \<open>Resolved conflicts in\<close>, or raises the error of the write.
\<close>

theorem C2_no_start_marker:
  assumes "read_file p w = Inr content" and "\<not> contains (py ''<<<<<<< HEAD'') content"
  shows "resolve_generic_conflicts p preference w = w\<lparr>stdout := stdout w @ [NoConflictFound p]\<rparr>
    \<and> resolve_conflicts p w =
        (case write_file p content w of Inl e \<Rightarrow> Inl e | Inr w' \<Rightarrow> Inr (print (Resolved p) w'))"
proof -
  from no_marker_no_start_text[OF assms(2)] have "\<not> contains start_text content" .
  from no_start_unchanged[OF this] have "resolveGeneric (resolveSpecialCase content) = content"
    by simp
  with assms show ?thesis
    by (simp add: resolve_generic_conflicts_def resolve_conflicts_def print_def)
qed

theorem C2_no_start_marker_witness:
  "read_file (py ''a.ts'')
      \<lparr>files = Map.empty(py ''a.ts'' \<mapsto> File True True (py ''hello\<newline>'')), writes = [], stdout = []\<rparr>
     = Inr (py ''hello\<newline>'')
   \<and> \<not> contains (py ''<<<<<<< HEAD'') (py ''hello\<newline>'')
   \<and> resolve_generic_conflicts (py ''a.ts'') (py ''test'')
      \<lparr>files = Map.empty(py ''a.ts'' \<mapsto> File True True (py ''hello\<newline>'')), writes = [], stdout = []\<rparr>
     = \<lparr>files = Map.empty(py ''a.ts'' \<mapsto> File True True (py ''hello\<newline>'')), writes = [],
         stdout = [NoConflictFound (py ''a.ts'')]\<rparr>"
proof -
  let ?w = "\<lparr>files = Map.empty(py ''a.ts'' \<mapsto> File True True (py ''hello\<newline>'')), writes = [], stdout = []\<rparr>"
  have r: "read_file (py ''a.ts'') ?w = Inr (py ''hello\<newline>'')"
    by (simp add: read_file_def)
  have n: "\<not> contains (py ''<<<<<<< HEAD'') (py ''hello\<newline>'')"
    by (simp add: py_def)
  from r n C2_no_start_marker[OF r n, of "py ''test''"] show ?thesis by simp
qed


section \<open>The batch\<close>

text \<open>
  C8: for every list of paths, each loop prints exactly one line for each path of the list
  that exists, in the order of the list, and nothing for a path that does not exist: the
  paths of the lines printed by the loop are the paths of the list that exist. This holds
  for the loop over \<open>conflict_files\<close> and for the loop over the items of \<open>additional_files\<close>.
\<close>

theorem C8_one_outcome_per_existing_path:
  "map outcome_path (stdout (process_files ps w))
     = map outcome_path (stdout w) @ filter (path_exists w) ps
   \<and> map outcome_path (stdout (process_items items w))
     = map outcome_path (stdout w) @ filter (path_exists w) (map fst items)"
  using process_files_outcomes[of ps w] process_items_outcomes[of items w] by simp

theorem C8_one_outcome_per_existing_path_witness:
  "map outcome_path (stdout (process_items [(py ''startup.sh'', py ''test''), (py ''missing.md'', py ''test'')]
      \<lparr>files = Map.empty(py ''startup.sh'' \<mapsto> File True True (py ''echo\<newline>'')), writes = [], stdout = []\<rparr>))
     = [py ''startup.sh'']
   \<and> stdout (process_items [(py ''startup.sh'', py ''test''), (py ''missing.md'', py ''test'')]
      \<lparr>files = Map.empty(py ''startup.sh'' \<mapsto> File True True (py ''echo\<newline>'')), writes = [], stdout = []\<rparr>)
     = [NoConflictFound (py ''startup.sh'')]"
proof -
  let ?w = "\<lparr>files = Map.empty(py ''startup.sh'' \<mapsto> File True True (py ''echo\<newline>'')), writes = [], stdout = []\<rparr>"
  let ?items = "[(py ''startup.sh'', py ''test''), (py ''missing.md'', py ''test'')]"
  have "stdout (process_items ?items ?w) = [NoConflictFound (py ''startup.sh'')]"
    by (simp add: path_exists_def resolve_generic_conflicts_def read_file_def print_def py_def)
  moreover have "filter (path_exists ?w) (map fst ?items) = [py ''startup.sh'']"
    by (simp add: path_exists_def py_def)
  ultimately show ?thesis
    using C8_one_outcome_per_existing_path[of "[]" ?w ?items] by simp
qed

text \<open>
  C9: when reading or writing an existing path fails, at any place in the list, the loop
  prints \<open>Error processing\<close> with the path and the text of the error raised, changes nothing
  else, and goes on with the rest of the list. In \<open>resolve_conflicts.py\<close> the write is tried
  for every file that was read; in \<open>resolve_remaining.py\<close> for every file that was read and
  contains \<open><<<<<<< HEAD\<close>.
\<close>

theorem C9_failure_reported_and_batch_continues:
  "(path_exists (process_files before w) p \<and>
      (read_file p (process_files before w) = Inl e \<or>
       (\<exists>c. read_file p (process_files before w) = Inr c \<and>
            write_file p (resolveGeneric (resolveSpecialCase c)) (process_files before w) = Inl e)) \<longrightarrow>
      process_files (before @ p # rest) w
        = process_files rest (print (Error p e) (process_files before w)))
   \<and> (path_exists (process_items items w) p \<and>
      (read_file p (process_items items w) = Inl e \<or>
       (\<exists>c. read_file p (process_items items w) = Inr c \<and> contains (py ''<<<<<<< HEAD'') c \<and>
            write_file p (if preference = py ''test'' then resolveGeneric c else c)
              (process_items items w) = Inl e)) \<longrightarrow>
      process_items (items @ (p, preference) # others) w
        = process_items others (print (Error p e) (process_items items w)))
   \<and> line (Error p e) = py ''Error processing '' @ p @ py '': '' @ str_of_error e"
  by (auto simp: process_files_append process_items_append resolve_conflicts_def
      resolve_generic_conflicts_def)


theorem C9_failure_reported_and_batch_continues_witness:
  "path_exists \<lparr>files = Map.empty(py ''a.ts'' \<mapsto> File True False (py ''x'')), writes = [], stdout = []\<rparr> (py ''a.ts'')
   \<and> read_file (py ''a.ts'') \<lparr>files = Map.empty(py ''a.ts'' \<mapsto> File True False (py ''x'')), writes = [], stdout = []\<rparr>
       = Inr (py ''x'')
   \<and> write_file (py ''a.ts'') (resolveGeneric (resolveSpecialCase (py ''x'')))
         \<lparr>files = Map.empty(py ''a.ts'' \<mapsto> File True False (py ''x'')), writes = [], stdout = []\<rparr>
       = Inl (PermissionError (py ''a.ts''))
   \<and> process_files [py ''a.ts'', py ''b.ts'']
       \<lparr>files = Map.empty(py ''a.ts'' \<mapsto> File True False (py ''x'')), writes = [], stdout = []\<rparr>
     = process_files [py ''b.ts'']
         (print (Error (py ''a.ts'') (PermissionError (py ''a.ts'')))
            \<lparr>files = Map.empty(py ''a.ts'' \<mapsto> File True False (py ''x'')), writes = [], stdout = []\<rparr>)
   \<and> read_file (py ''a.ts'') \<lparr>files = Map.empty(py ''a.ts'' \<mapsto> File False True (py ''x'')), writes = [], stdout = []\<rparr>
       = Inl (PermissionError (py ''a.ts''))
   \<and> process_items [(py ''a.ts'', py ''test''), (py ''b.ts'', py ''test'')]
       \<lparr>files = Map.empty(py ''a.ts'' \<mapsto> File False True (py ''x'')), writes = [], stdout = []\<rparr>
     = process_items [(py ''b.ts'', py ''test'')]
         (print (Error (py ''a.ts'') (PermissionError (py ''a.ts'')))
            \<lparr>files = Map.empty(py ''a.ts'' \<mapsto> File False True (py ''x'')), writes = [], stdout = []\<rparr>)"
proof -
  let ?w = "\<lparr>files = Map.empty(py ''a.ts'' \<mapsto> File True False (py ''x'')), writes = [], stdout = []\<rparr>"
  let ?v = "\<lparr>files = Map.empty(py ''a.ts'' \<mapsto> File False True (py ''x'')), writes = [], stdout = []\<rparr>"
  let ?e = "PermissionError (py ''a.ts'')"
  have e: "path_exists (process_files [] ?w) (py ''a.ts'')" "path_exists (process_items [] ?v) (py ''a.ts'')"
    by (simp_all add: path_exists_def)
  have r: "read_file (py ''a.ts'') (process_files [] ?w) = Inr (py ''x'')"
    by (simp add: read_file_def)
  have c: "resolveGeneric (resolveSpecialCase (py ''x'')) = py ''x''"
    by (simp add: eval_simps)
  have wr: "write_file (py ''a.ts'') (resolveGeneric (resolveSpecialCase (py ''x''))) (process_files [] ?w) = Inl ?e"
    unfolding c by (simp add: write_file_def)
  have rv: "read_file (py ''a.ts'') (process_items [] ?v) = Inl ?e"
    by (simp add: read_file_def)
  from C9_failure_reported_and_batch_continues[where before = "[]" and w = ?w and p = "py ''a.ts''"
      and e = ?e and rest = "[py ''b.ts'']"] e r wr
  have 1: "process_files ([] @ py ''a.ts'' # [py ''b.ts'']) ?w
      = process_files [py ''b.ts''] (print (Error (py ''a.ts'') ?e) (process_files [] ?w))"
    by blast
  from C9_failure_reported_and_batch_continues[where items = "[]" and w = ?v and p = "py ''a.ts''"
      and e = ?e and preference = "py ''test''" and others = "[(py ''b.ts'', py ''test'')]"] e rv
  have 2: "process_items ([] @ (py ''a.ts'', py ''test'') # [(py ''b.ts'', py ''test'')]) ?v
      = process_items [(py ''b.ts'', py ''test'')] (print (Error (py ''a.ts'') ?e) (process_items [] ?v))"
    by blast
  from 1 2 e r wr rv show ?thesis by (simp del: process_files.simps(2) process_items.simps(2))
qed


end
